theory Spec2Isabelle
  imports Main
begin

section \<open>The offline sync manager: data model\<close>

text \<open>
  The class \<^verbatim>\<open>OfflineSync\<close> keeps routes and trail guides in three IndexedDB object
  stores (\<^verbatim>\<open>pending_routes\<close>, \<^verbatim>\<open>pending_guides\<close>, \<^verbatim>\<open>email_queue\<close>) and photos and
  surveys in two localStorage slots. Its methods are asynchronous; here each method is a
  function from the state before the call to the outcome and the state after it, run
  without interruption. Timestamps (\<^verbatim>\<open>new Date().toISOString()\<close>) are natural numbers
  read from the environment, payloads are opaque strings.
\<close>

type_synonym time = nat
type_synonym payload = string

datatype status = Pending | Uploaded | Submitted | Failed

datatype error = StoreUnavailable | RemoteWriteFailed | RelaySendFailed | QuotaExceeded | DataError

record user =
  uid :: string
  email :: "string option"
  displayName :: "string option"

text \<open>A record of \<^verbatim>\<open>pending_routes\<close> or \<^verbatim>\<open>pending_guides\<close>: the object literal of
  \<^verbatim>\<open>saveRoute\<close>, the key \<^verbatim>\<open>localId\<close> the store injects, and the fields
  \<^verbatim>\<open>uploadedAt\<close> and \<^verbatim>\<open>lastRetryAt\<close> that later mutations add (absent is \<open>None\<close>).\<close>

record pending_item =
  localId :: nat
  data :: payload
  userId :: string
  userEmail :: "string option"
  userName :: string
  timestamp :: time
  status :: status
  retryCount :: nat
  cloudId :: "string option"
  uploadedAt :: "time option"
  lastRetryAt :: "time option"

text \<open>An entry of \<^verbatim>\<open>email_queue\<close>; its \<^verbatim>\<open>data\<close> is the snapshot
  \<^verbatim>\<open>{ ...pendingRoute, localId }\<close> taken when the artifact is saved.\<close>

record email_item =
  id' :: nat
  type' :: string
  data :: pending_item
  timestamp :: time
  sent :: bool
  retryCount :: nat
  sentAt :: "time option"

record photo_item =
  id' :: string
  data :: payload
  fileName :: string
  mimeType :: string
  location :: "string option"
  routeId :: "string option"
  reportId :: "string option"
  timestamp :: time
  status :: status
  retryCount :: nat
  downloadUrl :: "string option"
  uploadedAt :: "time option"

record survey_item =
  id' :: string
  data :: payload
  routeId :: "string option"
  location :: "string option"
  timestamp :: time
  status :: status
  retryCount :: nat
  submittedAt :: "time option"

record emailjs_config =
  serviceId :: string
  templateId :: string
  publicKey :: string

text \<open>What a call of the remote store or of the relay was given.\<close>

datatype remote_call =
    AddRoute payload string string
  | AddGuide payload string string
  | UploadPhoto string payload
  | UpdateRouteSurvey string payload
  | AddSurvey payload "string option" time

record relay_call =
  service :: string
  template :: string
  to_email :: string
  subject :: string
  content_type :: string
  user_name :: string
  user_email :: string
  backup_data :: string
  sent_timestamp :: time
  local_id :: nat

text \<open>
  The environment of one call: the clock, the platform's reachability signal, the signed-in
  user (\<^verbatim>\<open>auth.currentUser\<close>, \<open>None\<close> also when the import of the Firebase setup fails),
  the admin settings, and what each remote operation answers. A remote operation either
  returns or throws; the environment decides which, per record it is attempted for.
  \<^verbatim>\<open>quotaExceeded\<close> says that \<^verbatim>\<open>localStorage.setItem\<close> throws, \<^verbatim>\<open>nowText\<close> and
  \<^verbatim>\<open>randomSuffix\<close> are the texts of \<^verbatim>\<open>Date.now()\<close> and of the random part of a queue
  id, \<^verbatim>\<open>emailjsPresent\<close> that the global \<^verbatim>\<open>emailjs\<close> exists already, \<^verbatim>\<open>scriptLoads\<close>
  that loading its script succeeds.
\<close>

record env =
  now :: time
  navigatorOnLine :: bool
  currentUser :: "user option"
  uploadRoute :: "pending_item \<Rightarrow> error + string"
  uploadGuide :: "pending_item \<Rightarrow> error + string"
  uploadPhoto :: "photo_item \<Rightarrow> error + string"
  submitSurvey :: "survey_item \<Rightarrow> error + unit"
  emailjsConfig :: emailjs_config
  backupEmail :: string
  emailjsSend :: "email_item \<Rightarrow> error + unit"
  stringify :: "pending_item \<Rightarrow> string"
  localeString :: "time \<Rightarrow> string"
  quotaExceeded :: bool
  nowText :: string
  randomSuffix :: string
  emailjsPresent :: bool
  scriptLoads :: bool

datatype task = AutoSync | PrunePhotos "photo_item list" | PruneSurveys "survey_item list"

datatype event =
    ToastSuccess string
  | ToastWarning string
  | ToastError string
  | ToastInfo string
  | SyncStarted nat
  | SyncUploaded nat
  | SyncFailures nat
  | PendingNotification nat
  | PendingItemsUpdated nat nat nat

record database =
  pending_routes :: "pending_item list"
  pending_guides :: "pending_item list"
  email_queue :: "email_item list"
  routeKeyGen :: nat
  guideKeyGen :: nat
  emailKeyGen :: nat

text \<open>
  The object's fields (\<^verbatim>\<open>db\<close> is \<^verbatim>\<open>null\<close> until \<^verbatim>\<open>openDatabase\<close> has run), the two
  localStorage slots, the timers set with \<^verbatim>\<open>setTimeout\<close> and not yet fired, and what the
  object has done to the outside: remote calls, relay calls (each with the key of the
  queue entry it was made for), toasts and UI events.
\<close>

record sync_state =
  db :: "database option"
  isOnline :: bool
  syncInProgress :: bool
  emailJsLoaded :: bool
  pendingPhotos :: "photo_item list"
  pendingSurveys :: "survey_item list"
  timers :: "(nat \<times> task) list"
  remote_log :: "remote_call list"
  relay_log :: "(nat \<times> relay_call) list"
  events :: "event list"

type_synonym 'a result = "(error + 'a) \<times> sync_state"

definition toast :: "event \<Rightarrow> sync_state \<Rightarrow> sync_state" where
  "toast ev s = s\<lparr>events := events s @ [ev]\<rparr>"

text \<open>JavaScript's \<^verbatim>\<open>a || b\<close> on a nullable string: \<^verbatim>\<open>null\<close>, \<^verbatim>\<open>undefined\<close> and the
  empty string are falsy.\<close>

definition truthy :: "string option \<Rightarrow> bool" where
  "truthy a = (case a of None \<Rightarrow> False | Some v \<Rightarrow> v \<noteq> [])"

definition or_else :: "string option \<Rightarrow> string \<Rightarrow> string" where
  "or_else a b = (case a of None \<Rightarrow> b | Some v \<Rightarrow> if v = [] then b else v)"

definition or_null :: "string option \<Rightarrow> string option" where
  "or_null a = (if truthy a then a else None)"

section \<open>The object stores\<close>

text \<open>
  An object store with a key path and a key generator is the list of its records in key
  order. \<^verbatim>\<open>get\<close> finds the record of a key, \<^verbatim>\<open>put\<close> replaces the record that has the
  key of the new one (or inserts it in key order when there is none), \<^verbatim>\<open>add\<close> gives
  the record the generator's next key. Requests on an open database succeed; on
  \<^verbatim>\<open>this.db === null\<close> the call \<^verbatim>\<open>this.db.transaction\<close> throws.
\<close>

definition store_get :: "('r \<Rightarrow> nat) \<Rightarrow> nat \<Rightarrow> 'r list \<Rightarrow> 'r option" where
  "store_get key k xs = find (\<lambda>x. key x = k) xs"

definition store_put :: "('r \<Rightarrow> nat) \<Rightarrow> 'r \<Rightarrow> 'r list \<Rightarrow> 'r list" where
  "store_put key r xs =
     (if store_get key (key r) xs = None then insort_key key r xs
      else map (\<lambda>x. if key x = key r then r else x) xs)"

definition empty_database :: database where
  "empty_database = \<lparr>pending_routes = [], pending_guides = [], email_queue = [],
     routeKeyGen = 1, guideKeyGen = 1, emailKeyGen = 1\<rparr>"

definition constructor :: "bool \<Rightarrow> sync_state" where
  "constructor onLine = \<lparr>db = None, isOnline = onLine, syncInProgress = False,
     emailJsLoaded = False, pendingPhotos = [], pendingSurveys = [], timers = [],
     remote_log = [], relay_log = [], events = []\<rparr>"

definition openDatabase :: "database option \<Rightarrow> sync_state \<Rightarrow> sync_state" where
  "openDatabase stored s =
     s\<lparr>db := Some (case stored of None \<Rightarrow> empty_database | Some d \<Rightarrow> d)\<rparr>"

definition savePendingRoute :: "pending_item \<Rightarrow> sync_state \<Rightarrow> nat result" where
  "savePendingRoute routeData s =
     (case db s of
        None \<Rightarrow> (Inl StoreUnavailable, s)
      | Some d \<Rightarrow>
          (Inr (routeKeyGen d),
           s\<lparr>db := Some (d\<lparr>pending_routes :=
                              pending_routes d @ [routeData\<lparr>localId := routeKeyGen d\<rparr>],
                            routeKeyGen := Suc (routeKeyGen d)\<rparr>)\<rparr>))"

definition savePendingGuide :: "pending_item \<Rightarrow> sync_state \<Rightarrow> nat result" where
  "savePendingGuide guideData s =
     (case db s of
        None \<Rightarrow> (Inl StoreUnavailable, s)
      | Some d \<Rightarrow>
          (Inr (guideKeyGen d),
           s\<lparr>db := Some (d\<lparr>pending_guides :=
                              pending_guides d @ [guideData\<lparr>localId := guideKeyGen d\<rparr>],
                            guideKeyGen := Suc (guideKeyGen d)\<rparr>)\<rparr>))"

definition mark_uploaded :: "nat \<Rightarrow> string \<Rightarrow> time \<Rightarrow> pending_item list \<Rightarrow> pending_item list" where
  "mark_uploaded k cid t xs =
     (case store_get localId k xs of
        None \<Rightarrow> xs
      | Some item \<Rightarrow>
          store_put localId
            (item\<lparr>pending_item.status := Uploaded, cloudId := Some cid,
                  pending_item.uploadedAt := Some t\<rparr>) xs)"

definition markRouteUploaded :: "env \<Rightarrow> nat \<Rightarrow> string \<Rightarrow> sync_state \<Rightarrow> unit result" where
  "markRouteUploaded e k cid s =
     (case db s of
        None \<Rightarrow> (Inl StoreUnavailable, s)
      | Some d \<Rightarrow>
          (Inr (), s\<lparr>db := Some (d\<lparr>pending_routes := mark_uploaded k cid (now e) (pending_routes d)\<rparr>)\<rparr>))"

definition markGuideUploaded :: "env \<Rightarrow> nat \<Rightarrow> string \<Rightarrow> sync_state \<Rightarrow> unit result" where
  "markGuideUploaded e k cid s =
     (case db s of
        None \<Rightarrow> (Inl StoreUnavailable, s)
      | Some d \<Rightarrow>
          (Inr (), s\<lparr>db := Some (d\<lparr>pending_guides := mark_uploaded k cid (now e) (pending_guides d)\<rparr>)\<rparr>))"

definition getPendingRoutes :: "sync_state \<Rightarrow> (pending_item list) result" where
  "getPendingRoutes s =
     (case db s of None \<Rightarrow> (Inl StoreUnavailable, s) | Some d \<Rightarrow> (Inr (pending_routes d), s))"

definition getPendingGuides :: "sync_state \<Rightarrow> (pending_item list) result" where
  "getPendingGuides s =
     (case db s of None \<Rightarrow> (Inl StoreUnavailable, s) | Some d \<Rightarrow> (Inr (pending_guides d), s))"

definition is_pending :: "pending_item \<Rightarrow> bool" where
  "is_pending r = (pending_item.status r = Pending)"

text \<open>\<^verbatim>\<open>getPendingCount\<close> catches every error and answers 0 then.\<close>

definition getPendingCount :: "sync_state \<Rightarrow> nat" where
  "getPendingCount s =
     (case getPendingRoutes s of
        (Inl _, _) \<Rightarrow> 0
      | (Inr routes, s1) \<Rightarrow>
          (case getPendingGuides s1 of
             (Inl _, _) \<Rightarrow> 0
           | (Inr guides, _) \<Rightarrow>
               length (filter is_pending routes) + length (filter is_pending guides)))"

section \<open>Sequencing, \<^verbatim>\<open>try\<close>/\<^verbatim>\<open>catch\<close> and \<^verbatim>\<open>for\<close> loops\<close>

text \<open>\<^verbatim>\<open>await a; b\<close>: a rejection of \<open>a\<close> skips \<open>b\<close>; the state reached so far stays.\<close>

definition and_then :: "'a result \<Rightarrow> ('a \<Rightarrow> sync_state \<Rightarrow> 'b result) \<Rightarrow> 'b result" where
  "and_then r f = (case r of (Inl err, s) \<Rightarrow> (Inl err, s) | (Inr v, s) \<Rightarrow> f v s)"

text \<open>\<^verbatim>\<open>for (const x of xs) { ... }\<close> with the loop's local variables in \<open>acc\<close>; an error
  the body does not catch ends the loop.\<close>

fun for_each :: "('a \<Rightarrow> 'c \<Rightarrow> sync_state \<Rightarrow> 'c result) \<Rightarrow> 'a list \<Rightarrow> 'c \<Rightarrow> sync_state \<Rightarrow> 'c result" where
  "for_each body [] acc s = (Inr acc, s)"
| "for_each body (x # xs) acc s =
     (case body x acc s of
        (Inl err, s1) \<Rightarrow> (Inl err, s1)
      | (Inr acc1, s1) \<Rightarrow> for_each body xs acc1 s1)"

section \<open>Cloud upload\<close>

text \<open>\<^verbatim>\<open>uploadRouteToCloud(route.data, user)\<close>: the document given to \<^verbatim>\<open>addDoc\<close> is logged,
  the answer (the new document's id, or a throw) is the environment's. The record is
  passed whole so that the environment can answer per record.\<close>

definition route_call :: "user \<Rightarrow> pending_item \<Rightarrow> remote_call" where
  "route_call u route =
     AddRoute (pending_item.data route) (uid u) (or_else (displayName u) ''Anonymous'')"

definition guide_call :: "user \<Rightarrow> pending_item \<Rightarrow> remote_call" where
  "guide_call u guide =
     AddGuide (pending_item.data guide) (uid u) (or_else (displayName u) ''Anonymous'')"

definition uploadRouteToCloud :: "env \<Rightarrow> pending_item \<Rightarrow> user \<Rightarrow> sync_state \<Rightarrow> string result" where
  "uploadRouteToCloud e route u s =
     (uploadRoute e route, s\<lparr>remote_log := remote_log s @ [route_call u route]\<rparr>)"

definition uploadGuideToCloud :: "env \<Rightarrow> pending_item \<Rightarrow> user \<Rightarrow> sync_state \<Rightarrow> string result" where
  "uploadGuideToCloud e guide u s =
     (uploadGuide e guide, s\<lparr>remote_log := remote_log s @ [guide_call u guide]\<rparr>)"

section \<open>Email backup\<close>

text \<open>The \<^verbatim>\<open>emailItem\<close> of \<^verbatim>\<open>queueEmailBackup\<close>, with the key the store gives it.\<close>

definition email_entry :: "env \<Rightarrow> string \<Rightarrow> pending_item \<Rightarrow> nat \<Rightarrow> email_item" where
  "email_entry e ty snapshot k =
     \<lparr>email_item.id' = k, type' = ty, email_item.data = snapshot,
      email_item.timestamp = now e, sent = False, email_item.retryCount = 0,
      sentAt = None\<rparr>"

definition queueEmailBackup :: "env \<Rightarrow> string \<Rightarrow> pending_item \<Rightarrow> sync_state \<Rightarrow> nat result" where
  "queueEmailBackup e ty snapshot s =
     (case db s of
        None \<Rightarrow> (Inl StoreUnavailable, s)
      | Some d \<Rightarrow>
          (Inr (emailKeyGen d),
           s\<lparr>db := Some (d\<lparr>email_queue :=
                              email_queue d @ [email_entry e ty snapshot (emailKeyGen d)],
                            emailKeyGen := Suc (emailKeyGen d)\<rparr>)\<rparr>))"

definition configured :: "emailjs_config \<Rightarrow> bool" where
  "configured config = (publicKey config \<noteq> [] \<and> serviceId config \<noteq> [] \<and> templateId config \<noteq> [])"

definition relay_vars :: "env \<Rightarrow> email_item \<Rightarrow> relay_call" where
  "relay_vars e emailItem =
     (let d = email_item.data emailItem in
      \<lparr>service = serviceId (emailjsConfig e),
       template = templateId (emailjsConfig e),
       to_email = backupEmail e,
       subject = (if type' emailItem = ''route''
                  then ''Access Nature Route Backup - '' @ localeString e (pending_item.timestamp d)
                  else ''Access Nature Trail Guide Backup - '' @ localeString e (pending_item.timestamp d)),
       content_type = type' emailItem,
       user_name = or_else (Some (userName d)) ''Anonymous'',
       user_email = or_else (userEmail d) ''Not provided'',
       backup_data = take 5000 (stringify e d),
       sent_timestamp = pending_item.timestamp d,
       local_id = localId d\<rparr>)"

text \<open>With an incomplete configuration \<^verbatim>\<open>sendEmailBackup\<close> returns without sending and
  without throwing.\<close>

definition sendEmailBackup :: "env \<Rightarrow> email_item \<Rightarrow> sync_state \<Rightarrow> unit result" where
  "sendEmailBackup e emailItem s =
     (if \<not> configured (emailjsConfig e) then (Inr (), s)
      else (emailjsSend e emailItem,
            s\<lparr>relay_log := relay_log s @ [(email_item.id' emailItem, relay_vars e emailItem)]\<rparr>))"

definition mark_sent :: "nat \<Rightarrow> time \<Rightarrow> email_item list \<Rightarrow> email_item list" where
  "mark_sent k t xs =
     (case store_get email_item.id' k xs of
        None \<Rightarrow> xs
      | Some item \<Rightarrow> store_put email_item.id' (item\<lparr>sent := True, sentAt := Some t\<rparr>) xs)"

definition markEmailSent :: "env \<Rightarrow> nat \<Rightarrow> sync_state \<Rightarrow> unit result" where
  "markEmailSent e k s =
     (case db s of
        None \<Rightarrow> (Inl StoreUnavailable, s)
      | Some d \<Rightarrow> (Inr (), s\<lparr>db := Some (d\<lparr>email_queue := mark_sent k (now e) (email_queue d)\<rparr>)\<rparr>))"

definition bump_email_retry :: "nat \<Rightarrow> email_item list \<Rightarrow> email_item list" where
  "bump_email_retry k xs =
     (case store_get email_item.id' k xs of
        None \<Rightarrow> xs
      | Some item \<Rightarrow>
          store_put email_item.id'
            (item\<lparr>email_item.retryCount := email_item.retryCount item + 1\<rparr>) xs)"

definition incrementEmailRetry :: "nat \<Rightarrow> sync_state \<Rightarrow> unit result" where
  "incrementEmailRetry k s =
     (case db s of
        None \<Rightarrow> (Inl StoreUnavailable, s)
      | Some d \<Rightarrow> (Inr (), s\<lparr>db := Some (d\<lparr>email_queue := bump_email_retry k (email_queue d)\<rparr>)\<rparr>))"

text \<open>One turn of the loop of \<^verbatim>\<open>processEmailQueue\<close>: entries at the retry cap are
  skipped; a throw of the send (or of the marking) is caught and counted.\<close>

definition drain_email :: "env \<Rightarrow> email_item \<Rightarrow> unit \<Rightarrow> sync_state \<Rightarrow> unit result" where
  "drain_email e item acc s =
     (if 3 \<le> email_item.retryCount item then (Inr (), s)
      else
        (case and_then (sendEmailBackup e item s) (\<lambda>_. markEmailSent e (email_item.id' item)) of
           (Inr _, s1) \<Rightarrow> (Inr (), s1)
         | (Inl _, s1) \<Rightarrow> incrementEmailRetry (email_item.id' item) s1))"

text \<open>
  The read of \<^verbatim>\<open>processEmailQueue\<close> goes through the index \<^verbatim>\<open>sent\<close> of the store:
  \<^verbatim>\<open>store.index('sent').getAll(false)\<close>. The index is IndexedDB's, not the source's; what
  it does with the argument decides what the method does, so it is written out. A query
  that is not a key range is converted to a key; numbers, strings, dates, binary data and
  arrays of keys are keys, a boolean is not, and for a value that is not a key
  \<^verbatim>\<open>getAll\<close> throws a \<^verbatim>\<open>DataError\<close> at the call. For a query that is a key the answer is
  the records whose indexed field equals it, in key order (a record whose field is not a
  key has no entry in the index).
\<close>

datatype idb_value = Boolean bool | Number nat | Text string

definition valid_key :: "idb_value \<Rightarrow> bool" where
  "valid_key v = (case v of Boolean _ \<Rightarrow> False | Number _ \<Rightarrow> True | Text _ \<Rightarrow> True)"

definition index_getAll :: "('r \<Rightarrow> idb_value) \<Rightarrow> idb_value \<Rightarrow> 'r list \<Rightarrow> error + 'r list" where
  "index_getAll keyPath query xs =
     (if valid_key query then Inr (filter (\<lambda>x. keyPath x = query) xs) else Inl DataError)"

text \<open>
  \<^verbatim>\<open>processEmailQueue\<close>: the whole read is inside the \<^verbatim>\<open>try\<close>, whose \<^verbatim>\<open>catch\<close> logs the
  error and lets the method return; so does a throw while opening the transaction
  (\<^verbatim>\<open>this.db\<close> not set). The loop over the answer (the source's \<^verbatim>\<open>unsent\<close>) is in the
  request's \<^verbatim>\<open>onsuccess\<close> callback, run here to its end. The method never rejects.
\<close>

definition processEmailQueue :: "env \<Rightarrow> sync_state \<Rightarrow> sync_state" where
  "processEmailQueue e s =
     (if \<not> emailJsLoaded s \<or> \<not> isOnline s then s
      else
        (case db s of
           None \<Rightarrow> s
         | Some d \<Rightarrow>
             (case index_getAll (\<lambda>item. Boolean (sent item)) (Boolean False) (email_queue d) of
                Inl _ \<Rightarrow> s
              | Inr unsent \<Rightarrow> snd (for_each (drain_email e) unsent () s))))"

section \<open>Saving\<close>

text \<open>The object literal of \<^verbatim>\<open>saveRoute\<close> and \<^verbatim>\<open>saveTrailGuide\<close>. It has no
  \<^verbatim>\<open>localId\<close> yet; the store's \<^verbatim>\<open>add\<close> sets it.\<close>

definition new_pending :: "env \<Rightarrow> payload \<Rightarrow> user option \<Rightarrow> pending_item" where
  "new_pending e artifact usr =
     \<lparr>localId = 0, pending_item.data = artifact,
      userId = or_else (map_option uid usr) ''anonymous'',
      userEmail = or_null (Option.bind usr email),
      userName = or_else (Option.bind usr displayName) ''Anonymous'',
      pending_item.timestamp = now e, pending_item.status = Pending,
      pending_item.retryCount = 0, cloudId = None,
      pending_item.uploadedAt = None, lastRetryAt = None\<rparr>"

text \<open>The end both save methods share: \<^verbatim>\<open>this.processEmailQueue(); return { localId,
  cloudId: null }\<close>.\<close>

definition saved_locally :: "env \<Rightarrow> nat \<Rightarrow> sync_state \<Rightarrow> (nat \<times> string option) result" where
  "saved_locally e k s = (Inr (k, None), processEmailQueue e s)"

definition saveRoute :: "env \<Rightarrow> payload \<Rightarrow> user option \<Rightarrow> sync_state \<Rightarrow> (nat \<times> string option) result" where
  "saveRoute e routeData usr s =
     (let pendingRoute = new_pending e routeData usr in
      and_then (savePendingRoute pendingRoute s) (\<lambda>k s1.
      and_then (queueEmailBackup e ''route'' (pendingRoute\<lparr>localId := k\<rparr>) s1) (\<lambda>_ s2.
        (case (if isOnline s2 then usr else None) of
           Some u \<Rightarrow>
             (case uploadRouteToCloud e (pendingRoute\<lparr>localId := k\<rparr>) u s2 of
                (Inr cid, s3) \<Rightarrow>
                  (if cid \<noteq> [] then
                     (case markRouteUploaded e k cid s3 of
                        (Inr _, s4) \<Rightarrow>
                          (Inr (k, Some cid), toast (ToastSuccess ''Route saved to cloud!'') s4)
                      | (Inl _, s4) \<Rightarrow>
                          saved_locally e k
                            (toast (ToastWarning ''Saved locally - will sync when online'') s4))
                   else saved_locally e k s3)
              | (Inl _, s3) \<Rightarrow>
                  saved_locally e k
                    (toast (ToastWarning ''Saved locally - will sync when online'') s3))
         | None \<Rightarrow> saved_locally e k (toast (ToastSuccess ''Route saved locally'') s2)))))"

definition saveTrailGuide :: "env \<Rightarrow> payload \<Rightarrow> user option \<Rightarrow> sync_state \<Rightarrow> (nat \<times> string option) result" where
  "saveTrailGuide e guideData usr s =
     (let pendingGuide = new_pending e guideData usr in
      and_then (savePendingGuide pendingGuide s) (\<lambda>k s1.
      and_then (queueEmailBackup e ''guide'' (pendingGuide\<lparr>localId := k\<rparr>) s1) (\<lambda>_ s2.
        (case (if isOnline s2 then usr else None) of
           Some u \<Rightarrow>
             (case uploadGuideToCloud e (pendingGuide\<lparr>localId := k\<rparr>) u s2 of
                (Inr cid, s3) \<Rightarrow>
                  (if cid \<noteq> [] then
                     (case markGuideUploaded e k cid s3 of
                        (Inr _, s4) \<Rightarrow>
                          (Inr (k, Some cid), toast (ToastSuccess ''Trail guide saved to cloud!'') s4)
                      | (Inl _, s4) \<Rightarrow>
                          saved_locally e k
                            (toast (ToastWarning ''Guide saved locally - will sync when online'') s4))
                   else saved_locally e k s3)
              | (Inl _, s3) \<Rightarrow>
                  saved_locally e k
                    (toast (ToastWarning ''Guide saved locally - will sync when online'') s3))
         | None \<Rightarrow> saved_locally e k (toast (ToastSuccess ''Trail guide saved locally'') s2)))))"

section \<open>Synchronisation\<close>

datatype store_name = PendingRoutes | PendingGuides

definition bump_retry :: "nat \<Rightarrow> time \<Rightarrow> pending_item list \<Rightarrow> pending_item list" where
  "bump_retry k t xs =
     (case store_get localId k xs of
        None \<Rightarrow> xs
      | Some item \<Rightarrow>
          store_put localId
            (item\<lparr>pending_item.retryCount := pending_item.retryCount item + 1,
                  lastRetryAt := Some t\<rparr>) xs)"

definition incrementRetryCount :: "env \<Rightarrow> store_name \<Rightarrow> nat \<Rightarrow> sync_state \<Rightarrow> unit result" where
  "incrementRetryCount e storeName k s =
     (case db s of
        None \<Rightarrow> (Inl StoreUnavailable, s)
      | Some d \<Rightarrow>
          (Inr (),
           (case storeName of
              PendingRoutes \<Rightarrow>
                s\<lparr>db := Some (d\<lparr>pending_routes := bump_retry k (now e) (pending_routes d)\<rparr>)\<rparr>
            | PendingGuides \<Rightarrow>
                s\<lparr>db := Some (d\<lparr>pending_guides := bump_retry k (now e) (pending_guides d)\<rparr>)\<rparr>)))"

text \<open>The bodies of the two loops of \<^verbatim>\<open>syncAllPending\<close>; the pair counts successes and
  failures.\<close>

definition sync_route :: "env \<Rightarrow> user \<Rightarrow> pending_item \<Rightarrow> nat \<times> nat \<Rightarrow> sync_state \<Rightarrow> (nat \<times> nat) result" where
  "sync_route e u route cnt s =
     (case and_then (uploadRouteToCloud e route u s) (markRouteUploaded e (localId route)) of
        (Inr _, s1) \<Rightarrow> (Inr (fst cnt + 1, snd cnt), s1)
      | (Inl _, s1) \<Rightarrow>
          and_then (incrementRetryCount e PendingRoutes (localId route) s1)
            (\<lambda>_ s2. (Inr (fst cnt, snd cnt + 1), s2)))"

definition sync_guide :: "env \<Rightarrow> user \<Rightarrow> pending_item \<Rightarrow> nat \<times> nat \<Rightarrow> sync_state \<Rightarrow> (nat \<times> nat) result" where
  "sync_guide e u guide cnt s =
     (case and_then (uploadGuideToCloud e guide u s) (markGuideUploaded e (localId guide)) of
        (Inr _, s1) \<Rightarrow> (Inr (fst cnt + 1, snd cnt), s1)
      | (Inl _, s1) \<Rightarrow>
          and_then (incrementRetryCount e PendingGuides (localId guide) s1)
            (\<lambda>_ s2. (Inr (fst cnt, snd cnt + 1), s2)))"

text \<open>Which \<^verbatim>\<open>return\<close> of \<^verbatim>\<open>syncAllPending\<close> was taken (the method itself returns
  nothing; it logs or toasts the reason).\<close>

datatype sync_outcome =
    AlreadyInProgress
  | NoConnection
  | NoUser
  | NothingPending
  | Synced nat nat
  | SyncFailed

definition show_results :: "nat \<times> nat \<Rightarrow> sync_state \<Rightarrow> sync_state" where
  "show_results cnt s =
     (let s1 = (if 0 < fst cnt then toast (SyncUploaded (fst cnt)) s else s)
      in if 0 < snd cnt then toast (SyncFailures (snd cnt)) s1 else s1)"

text \<open>The \<^verbatim>\<open>try\<close> block of \<^verbatim>\<open>syncAllPending\<close> once a user is known.\<close>

definition sync_pass :: "env \<Rightarrow> user \<Rightarrow> sync_state \<Rightarrow> sync_outcome result" where
  "sync_pass e u s =
     and_then (getPendingRoutes s) (\<lambda>routes s1.
     and_then (getPendingGuides s1) (\<lambda>guides s2.
       (let pendingRoutes = filter is_pending routes;
            pendingGuides = filter is_pending guides;
            totalPending = length pendingRoutes + length pendingGuides
        in if totalPending = 0 then (Inr NothingPending, s2\<lparr>syncInProgress := False\<rparr>)
           else
             and_then (for_each (sync_route e u) pendingRoutes (0, 0)
                         (toast (SyncStarted totalPending) s2)) (\<lambda>cnt1 s3.
             and_then (for_each (sync_guide e u) pendingGuides cnt1 s3) (\<lambda>cnt s4.
               (Inr (Synced (fst cnt) (snd cnt)),
                processEmailQueue e (show_results cnt s4)))))))"

definition syncAllPending :: "env \<Rightarrow> sync_state \<Rightarrow> sync_outcome \<times> sync_state" where
  "syncAllPending e s =
     (if syncInProgress s then (AlreadyInProgress, s)
      else if \<not> isOnline s then (NoConnection, toast (ToastError ''No internet connection'') s)
      else
        (case currentUser e of
           None \<Rightarrow> (NoUser, s\<lparr>syncInProgress := True\<rparr>\<lparr>syncInProgress := False\<rparr>)
         | Some u \<Rightarrow>
             (case sync_pass e u (s\<lparr>syncInProgress := True\<rparr>) of
                (Inr out, s1) \<Rightarrow> (out, s1\<lparr>syncInProgress := False\<rparr>)
              | (Inl _, s1) \<Rightarrow>
                  (SyncFailed, (toast (ToastError ''Sync failed'') s1)\<lparr>syncInProgress := False\<rparr>))))"

section \<open>The photo and survey queues\<close>

text \<open>
  The two flat queues live in localStorage, each as one JSON array that is read whole and
  written whole. \<^verbatim>\<open>updatePendingIndicator\<close> counts the entries still \<^verbatim>\<open>'pending'\<close>
  and dispatches \<^verbatim>\<open>pendingItemsUpdated\<close>.
\<close>

record photo_data =
  content :: payload
  fileName :: "string option"
  mimeType :: "string option"
  location :: "string option"

record queue_context =
  location :: "string option"
  routeId :: "string option"
  reportId :: "string option"

definition first_truthy :: "string option \<Rightarrow> string option \<Rightarrow> string option" where
  "first_truthy a b = (if truthy a then a else or_null b)"

definition updatePendingIndicator :: "sync_state \<Rightarrow> sync_state" where
  "updatePendingIndicator s =
     (let photos = length (filter (\<lambda>p. photo_item.status p = Pending) (pendingPhotos s));
          surveys = length (filter (\<lambda>q. survey_item.status q = Pending) (pendingSurveys s))
      in s\<lparr>events := events s @ [PendingItemsUpdated photos surveys (photos + surveys)]\<rparr>)"

text \<open>One turn of the loop of \<^verbatim>\<open>processPhotoQueue\<close>. Only an entry already
  \<^verbatim>\<open>'uploaded'\<close> is passed over; for every other entry the upload is attempted, and a
  throw counts a retry and marks the entry \<^verbatim>\<open>'failed'\<close> from the third on.\<close>

definition try_photo :: "env \<Rightarrow> photo_item \<Rightarrow> sync_state \<Rightarrow> photo_item \<times> sync_state" where
  "try_photo e photo s =
     (if photo_item.status photo = Uploaded then (photo, s)
      else
        (let s1 = s\<lparr>remote_log := remote_log s @
                     [UploadPhoto (''photos/'' @ photo_item.id' photo) (photo_item.data photo)]\<rparr>
         in case uploadPhoto e photo of
              Inr url \<Rightarrow>
                (photo\<lparr>photo_item.status := Uploaded, downloadUrl := Some url,
                       photo_item.uploadedAt := Some (now e)\<rparr>, s1)
            | Inl _ \<Rightarrow>
                (let failed = photo\<lparr>photo_item.retryCount := photo_item.retryCount photo + 1\<rparr>
                 in (if 3 \<le> photo_item.retryCount failed
                     then failed\<lparr>photo_item.status := Failed\<rparr> else failed, s1))))"

fun drain_photos :: "env \<Rightarrow> photo_item list \<Rightarrow> sync_state \<Rightarrow> photo_item list \<times> sync_state" where
  "drain_photos e [] s = ([], s)"
| "drain_photos e (photo # rest) s =
     (case try_photo e photo s of
        (photo1, s1) \<Rightarrow>
          (case drain_photos e rest s1 of (rest1, s2) \<Rightarrow> (photo1 # rest1, s2)))"

text \<open>
  \<^verbatim>\<open>processPhotoQueue\<close> reads the queue once, works on that array, writes the array back
  and sets a timer that, five seconds later, writes back what of \<^emph>\<open>that same array\<close> is not
  \<^verbatim>\<open>'uploaded'\<close>. The timer's task carries the array.
\<close>

definition processPhotoQueue :: "env \<Rightarrow> sync_state \<Rightarrow> unit result" where
  "processPhotoQueue e s =
     (let queue = pendingPhotos s in
      if queue = [] then (Inr (), s)
      else
        (case drain_photos e queue s of
           (worked, s1) \<Rightarrow>
             (if quotaExceeded e then (Inl QuotaExceeded, s1)
              else (Inr (), s1\<lparr>pendingPhotos := worked,
                               timers := timers s1 @ [(5000, PrunePhotos worked)]\<rparr>))))"

definition queuePhoto :: "env \<Rightarrow> photo_data \<Rightarrow> queue_context \<Rightarrow> sync_state \<Rightarrow> string option \<times> sync_state" where
  "queuePhoto e photoData ctx s =
     (let queuedPhoto =
            \<lparr>photo_item.id' = ''photo_'' @ nowText e @ ''_'' @ randomSuffix e,
             photo_item.data = content photoData,
             photo_item.fileName = or_else (photo_data.fileName photoData)
                                     (''photo_'' @ nowText e @ ''.jpg''),
             photo_item.mimeType = or_else (photo_data.mimeType photoData) ''image/jpeg'',
             photo_item.location = first_truthy (photo_data.location photoData)
                                     (queue_context.location ctx),
             photo_item.routeId = or_null (queue_context.routeId ctx),
             photo_item.reportId = or_null (queue_context.reportId ctx),
             photo_item.timestamp = now e,
             photo_item.status = Pending,
             photo_item.retryCount = 0,
             downloadUrl = None,
             photo_item.uploadedAt = None\<rparr>
      in if quotaExceeded e then (None, toast (ToastError ''Failed to save photo offline'') s)
         else
           (let s1 = s\<lparr>pendingPhotos := pendingPhotos s @ [queuedPhoto]\<rparr>;
                s2 = toast (ToastInfo ''Photo saved offline - will upload when connected'') s1;
                s3 = updatePendingIndicator s2;
                s4 = (if isOnline s3 then snd (processPhotoQueue e s3) else s3)
            in (Some (photo_item.id' queuedPhoto), s4)))"

definition survey_call :: "survey_item \<Rightarrow> remote_call" where
  "survey_call survey =
     (case or_null (survey_item.routeId survey) of
        Some route \<Rightarrow> UpdateRouteSurvey route (survey_item.data survey)
      | None \<Rightarrow>
          AddSurvey (survey_item.data survey) (survey_item.location survey)
            (survey_item.timestamp survey))"

definition try_survey :: "env \<Rightarrow> survey_item \<Rightarrow> sync_state \<Rightarrow> survey_item \<times> sync_state" where
  "try_survey e survey s =
     (if survey_item.status survey = Submitted then (survey, s)
      else
        (let s1 = s\<lparr>remote_log := remote_log s @ [survey_call survey]\<rparr>
         in case submitSurvey e survey of
              Inr _ \<Rightarrow>
                (survey\<lparr>survey_item.status := Submitted, submittedAt := Some (now e)\<rparr>, s1)
            | Inl _ \<Rightarrow>
                (let failed = survey\<lparr>survey_item.retryCount := survey_item.retryCount survey + 1\<rparr>
                 in (if 3 \<le> survey_item.retryCount failed
                     then failed\<lparr>survey_item.status := Failed\<rparr> else failed, s1))))"

fun drain_surveys :: "env \<Rightarrow> survey_item list \<Rightarrow> sync_state \<Rightarrow> survey_item list \<times> sync_state" where
  "drain_surveys e [] s = ([], s)"
| "drain_surveys e (survey # rest) s =
     (case try_survey e survey s of
        (survey1, s1) \<Rightarrow>
          (case drain_surveys e rest s1 of (rest1, s2) \<Rightarrow> (survey1 # rest1, s2)))"

definition processSurveyQueue :: "env \<Rightarrow> sync_state \<Rightarrow> unit result" where
  "processSurveyQueue e s =
     (let queue = pendingSurveys s in
      if queue = [] then (Inr (), s)
      else
        (case drain_surveys e queue s of
           (worked, s1) \<Rightarrow>
             (if quotaExceeded e then (Inl QuotaExceeded, s1)
              else (Inr (), s1\<lparr>pendingSurveys := worked,
                               timers := timers s1 @ [(5000, PruneSurveys worked)]\<rparr>))))"

definition queueSurvey :: "env \<Rightarrow> payload \<Rightarrow> queue_context \<Rightarrow> sync_state \<Rightarrow> string option \<times> sync_state" where
  "queueSurvey e surveyData ctx s =
     (let queuedSurvey =
            \<lparr>survey_item.id' = ''survey_'' @ nowText e @ ''_'' @ randomSuffix e,
             survey_item.data = surveyData,
             survey_item.routeId = or_null (queue_context.routeId ctx),
             survey_item.location = or_null (queue_context.location ctx),
             survey_item.timestamp = now e,
             survey_item.status = Pending,
             survey_item.retryCount = 0,
             submittedAt = None\<rparr>
      in if quotaExceeded e then (None, toast (ToastError ''Failed to save survey offline'') s)
         else
           (let s1 = s\<lparr>pendingSurveys := pendingSurveys s @ [queuedSurvey]\<rparr>;
                s2 = toast (ToastInfo ''Survey saved offline - will submit when connected'') s1;
                s3 = updatePendingIndicator s2;
                s4 = (if isOnline s3 then snd (processSurveyQueue e s3) else s3)
            in (Some (survey_item.id' queuedSurvey), s4)))"

section \<open>Timers\<close>

text \<open>
  What a timer does when it fires: the delayed auto-sync of the \<^verbatim>\<open>online\<close> handler, and
  the two delayed prunes, which write the filtered array they carry over the slot.
\<close>

definition run_task :: "env \<Rightarrow> task \<Rightarrow> sync_state \<Rightarrow> sync_state" where
  "run_task e t s =
     (case t of
        AutoSync \<Rightarrow> (if isOnline s then snd (syncAllPending e s) else s)
      | PrunePhotos worked \<Rightarrow>
          (if quotaExceeded e then s
           else updatePendingIndicator
                  (s\<lparr>pendingPhotos := filter (\<lambda>p. photo_item.status p \<noteq> Uploaded) worked\<rparr>))
      | PruneSurveys worked \<Rightarrow>
          (if quotaExceeded e then s
           else updatePendingIndicator
                  (s\<lparr>pendingSurveys := filter (\<lambda>q. survey_item.status q \<noteq> Submitted) worked\<rparr>)))"

text \<open>The \<open>i\<close>-th timer that is still set fires.\<close>

definition fireTimer :: "env \<Rightarrow> nat \<Rightarrow> sync_state \<Rightarrow> sync_state" where
  "fireTimer e i s =
     (if i < length (timers s)
      then run_task e (snd (timers s ! i)) (s\<lparr>timers := take i (timers s) @ drop (Suc i) (timers s)\<rparr>)
      else s)"

section \<open>Connectivity\<close>

definition showPendingNotification :: "nat \<Rightarrow> sync_state \<Rightarrow> sync_state" where
  "showPendingNotification count s =
     (if count = 0
      then (let c = getPendingCount s
            in if 0 < c then s\<lparr>events := events s @ [PendingNotification c]\<rparr> else s)
      else s\<lparr>events := events s @ [PendingNotification count]\<rparr>)"

text \<open>The handler of the window's \<^verbatim>\<open>online\<close> event: with something pending it sets a
  timer of three seconds for the sync.\<close>

definition onOnline :: "env \<Rightarrow> sync_state \<Rightarrow> sync_state" where
  "onOnline e s =
     (let s1 = s\<lparr>isOnline := True\<rparr>;
          pendingCount = getPendingCount s1;
          s2 = (if 0 < pendingCount
                then (let s3 = showPendingNotification pendingCount s1
                      in s3\<lparr>timers := timers s3 @ [(3000, AutoSync)]\<rparr>)
                else s1)
      in processEmailQueue e s2)"

definition onOffline :: "sync_state \<Rightarrow> sync_state" where
  "onOffline s = toast (ToastWarning ''Offline - data will sync when connected'') (s\<lparr>isOnline := False\<rparr>)"

text \<open>The callback of \<^verbatim>\<open>setInterval(..., 30000)\<close>: it re-reads \<^verbatim>\<open>navigator.onLine\<close> and,
  when the flag has gone from false to true, awaits \<^verbatim>\<open>syncAllPending\<close> at once.\<close>

definition pollConnectivity :: "env \<Rightarrow> sync_state \<Rightarrow> sync_state" where
  "pollConnectivity e s =
     (let wasOnline = isOnline s;
          s1 = s\<lparr>isOnline := navigatorOnLine e\<rparr>
      in if \<not> wasOnline \<and> isOnline s1
         then (let pendingCount = getPendingCount s1;
                   s2 = (if 0 < pendingCount
                         then snd (syncAllPending e (showPendingNotification pendingCount s1))
                         else s1)
               in processEmailQueue e s2)
         else s1)"

section \<open>Start-up\<close>

definition loadEmailJS :: "env \<Rightarrow> sync_state \<Rightarrow> sync_state" where
  "loadEmailJS e s =
     (if emailJsLoaded s then s
      else if emailjsPresent e then s\<lparr>emailJsLoaded := True\<rparr>
      else if scriptLoads e \<and> publicKey (emailjsConfig e) \<noteq> [] then s\<lparr>emailJsLoaded := True\<rparr>
      else s)"

definition initialize :: "env \<Rightarrow> database option \<Rightarrow> sync_state \<Rightarrow> sync_state" where
  "initialize e stored s =
     (let s1 = loadEmailJS e (openDatabase stored s);
          pendingCount = getPendingCount s1
      in if 0 < pendingCount \<and> isOnline s1 then showPendingNotification pendingCount s1 else s1)"

section \<open>Two invocations of \<^verbatim>\<open>syncAllPending\<close> at once\<close>

text \<open>
  An \<^verbatim>\<open>async\<close> method runs without interruption up to its next \<^verbatim>\<open>await\<close>; other
  callbacks run between. \<^verbatim>\<open>syncAllPending\<close> is cut here at its \<^verbatim>\<open>await\<close>s: a value of
  \<open>sync_pc\<close> says where an invocation stands and holds its local variables, and
  \<open>sync_step\<close> runs it on the shared object to its next \<^verbatim>\<open>await\<close> (or to its
  \<^verbatim>\<open>return\<close>). The two loops are one work list, the pending routes and then the pending
  guides, each with the name of its store.
\<close>

datatype sync_pc =
    NotInvoked
  | AwaitAuth
  | AwaitRoutes user
  | AwaitGuides user "pending_item list"
  | LoopHead user "(store_name \<times> pending_item) list" nat nat
  | Marking user store_name pending_item string "(store_name \<times> pending_item) list" nat nat
  | Retrying user store_name pending_item "(store_name \<times> pending_item) list" nat nat
  | AwaitEmailQueue nat nat
  | Returned sync_outcome

definition sync_failed :: "sync_state \<Rightarrow> sync_pc \<times> sync_state" where
  "sync_failed s =
     (Returned SyncFailed, (toast (ToastError ''Sync failed'') s)\<lparr>syncInProgress := False\<rparr>)"

fun sync_step :: "env \<Rightarrow> sync_pc \<Rightarrow> sync_state \<Rightarrow> sync_pc \<times> sync_state" where
  "sync_step e NotInvoked s =
     (if syncInProgress s then (Returned AlreadyInProgress, s)
      else if \<not> isOnline s
      then (Returned NoConnection, toast (ToastError ''No internet connection'') s)
      else (AwaitAuth, s\<lparr>syncInProgress := True\<rparr>))"
| "sync_step e AwaitAuth s =
     (case currentUser e of
        None \<Rightarrow> (Returned NoUser, s\<lparr>syncInProgress := False\<rparr>)
      | Some u \<Rightarrow> (AwaitRoutes u, s))"
| "sync_step e (AwaitRoutes u) s =
     (case getPendingRoutes s of
        (Inl _, s1) \<Rightarrow> sync_failed s1
      | (Inr routes, s1) \<Rightarrow> (AwaitGuides u routes, s1))"
| "sync_step e (AwaitGuides u routes) s =
     (case getPendingGuides s of
        (Inl _, s1) \<Rightarrow> sync_failed s1
      | (Inr guides, s1) \<Rightarrow>
          (let pendingRoutes = filter is_pending routes;
               pendingGuides = filter is_pending guides;
               totalPending = length pendingRoutes + length pendingGuides
           in if totalPending = 0
              then (Returned NothingPending, s1\<lparr>syncInProgress := False\<rparr>)
              else (LoopHead u (map (Pair PendingRoutes) pendingRoutes @
                                map (Pair PendingGuides) pendingGuides) 0 0,
                    toast (SyncStarted totalPending) s1)))"
| "sync_step e (LoopHead u [] successCount failCount) s =
     (AwaitEmailQueue successCount failCount,
      processEmailQueue e (show_results (successCount, failCount) s))"
| "sync_step e (LoopHead u ((storeName, item) # rest) successCount failCount) s =
     (case (case storeName of
              PendingRoutes \<Rightarrow> uploadRouteToCloud e item u s
            | PendingGuides \<Rightarrow> uploadGuideToCloud e item u s) of
        (Inr cid, s1) \<Rightarrow> (Marking u storeName item cid rest successCount failCount, s1)
      | (Inl _, s1) \<Rightarrow> (Retrying u storeName item rest successCount failCount, s1))"
| "sync_step e (Marking u storeName item cid rest successCount failCount) s =
     (case (case storeName of
              PendingRoutes \<Rightarrow> markRouteUploaded e (localId item) cid s
            | PendingGuides \<Rightarrow> markGuideUploaded e (localId item) cid s) of
        (Inr _, s1) \<Rightarrow> (LoopHead u rest (successCount + 1) failCount, s1)
      | (Inl _, s1) \<Rightarrow> (Retrying u storeName item rest successCount failCount, s1))"
| "sync_step e (Retrying u storeName item rest successCount failCount) s =
     (case incrementRetryCount e storeName (localId item) s of
        (Inr _, s1) \<Rightarrow> (LoopHead u rest successCount (failCount + 1), s1)
      | (Inl _, s1) \<Rightarrow> sync_failed s1)"
| "sync_step e (AwaitEmailQueue successCount failCount) s =
     (Returned (Synced successCount failCount), s\<lparr>syncInProgress := False\<rparr>)"
| "sync_step e (Returned out) s = (Returned out, s)"

text \<open>An invocation is where it stands and the remote writes it has made: what its turns
  have added to the object's log of remote calls. Two invocations share the object; a
  schedule says whose turn it is, and in which environment.\<close>

type_synonym invocation = "sync_pc \<times> remote_call list"

definition advance :: "env \<Rightarrow> invocation \<Rightarrow> sync_state \<Rightarrow> invocation \<times> sync_state" where
  "advance e call s =
     (case sync_step e (fst call) s of
        (pc, s1) \<Rightarrow> ((pc, snd call @ drop (length (remote_log s)) (remote_log s1)), s1))"

fun interleave :: "(bool \<times> env) list \<Rightarrow> sync_state \<times> invocation \<times> invocation
    \<Rightarrow> sync_state \<times> invocation \<times> invocation" where
  "interleave [] c = c"
| "interleave ((who, e) # rest) (s, a, b) =
     (if who then (case advance e b s of (b1, s1) \<Rightarrow> interleave rest (s1, a, b1))
      else (case advance e a s of (a1, s1) \<Rightarrow> interleave rest (s1, a1, b)))"

definition invocation_of :: "bool \<Rightarrow> sync_state \<times> invocation \<times> invocation \<Rightarrow> invocation" where
  "invocation_of who c = (if who then snd (snd c) else fst (snd c))"

definition running :: "sync_pc \<Rightarrow> bool" where
  "running pc = (case pc of NotInvoked \<Rightarrow> False | Returned _ \<Rightarrow> False | _ \<Rightarrow> True)"

text \<open>Both invocations still to come.\<close>

definition both_fresh :: "sync_state \<Rightarrow> sync_state \<times> invocation \<times> invocation" where
  "both_fresh s = (s, (NotInvoked, []), (NotInvoked, []))"

text \<open>Whoever is running holds the flag, and holds it alone.\<close>

definition sole_holder :: "sync_state \<times> invocation \<times> invocation \<Rightarrow> bool" where
  "sole_holder c =
     (case c of (s, a, b) \<Rightarrow>
        (running (fst a) \<longrightarrow> syncInProgress s \<and> \<not> running (fst b)) \<and>
        (running (fst b) \<longrightarrow> syncInProgress s \<and> \<not> running (fst a)))"

text \<open>One invocation alone: \<open>n\<close> turns of it, with nothing between them.\<close>

fun run :: "env \<Rightarrow> nat \<Rightarrow> sync_pc \<Rightarrow> sync_state \<Rightarrow> sync_pc \<times> sync_state" where
  "run e 0 pc s = (pc, s)"
| "run e (Suc n) pc s = (case sync_step e pc s of (pc1, s1) \<Rightarrow> run e n pc1 s1)"

text \<open>Where an invocation stands after an awaited call: on with the value, or in the
  \<^verbatim>\<open>catch\<close> of the method if the call threw.\<close>

definition settle :: "'a result \<Rightarrow> ('a \<Rightarrow> sync_pc) \<Rightarrow> sync_pc \<times> sync_state" where
  "settle r k = (case r of (Inr v, s) \<Rightarrow> (k v, s) | (Inl _, s) \<Rightarrow> sync_failed s)"

section \<open>Properties: what is stated of the program\<close>

text \<open>The state of an artifact record: exactly one of pending without a cloud id, and
  uploaded with a cloud id and an upload time.\<close>

definition artifact_ok :: "pending_item \<Rightarrow> bool" where
  "artifact_ok r =
     ((pending_item.status r = Pending \<and> cloudId r = None) \<noteq>
      (pending_item.status r = Uploaded \<and> cloudId r \<noteq> None \<and> pending_item.uploadedAt r \<noteq> None))"

definition routes_of :: "sync_state \<Rightarrow> pending_item list" where
  "routes_of s = (case db s of None \<Rightarrow> [] | Some d \<Rightarrow> pending_routes d)"

definition guides_of :: "sync_state \<Rightarrow> pending_item list" where
  "guides_of s = (case db s of None \<Rightarrow> [] | Some d \<Rightarrow> pending_guides d)"

definition emails_of :: "sync_state \<Rightarrow> email_item list" where
  "emails_of s = (case db s of None \<Rightarrow> [] | Some d \<Rightarrow> email_queue d)"

definition store_ok :: "sync_state \<Rightarrow> bool" where
  "store_ok s = (list_all artifact_ok (routes_of s) \<and> list_all artifact_ok (guides_of s))"

text \<open>The operations on routes and guides, and a sequence of them, each in its own
  environment.\<close>

datatype operation =
    SaveRoute payload "user option"
  | SaveTrailGuide payload "user option"
  | MarkRouteUploaded nat string
  | MarkGuideUploaded nat string
  | IncrementRetryCount store_name nat
  | SyncAllPending

fun perform :: "env \<Rightarrow> operation \<Rightarrow> sync_state \<Rightarrow> sync_state" where
  "perform e (SaveRoute routeData usr) s = snd (saveRoute e routeData usr s)"
| "perform e (SaveTrailGuide guideData usr) s = snd (saveTrailGuide e guideData usr s)"
| "perform e (MarkRouteUploaded k cid) s = snd (markRouteUploaded e k cid s)"
| "perform e (MarkGuideUploaded k cid) s = snd (markGuideUploaded e k cid s)"
| "perform e (IncrementRetryCount storeName k) s = snd (incrementRetryCount e storeName k s)"
| "perform e SyncAllPending s = snd (syncAllPending e s)"

fun perform_all :: "(env \<times> operation) list \<Rightarrow> sync_state \<Rightarrow> sync_state" where
  "perform_all [] s = s"
| "perform_all ((e, x) # rest) s = perform_all rest (perform e x s)"

text \<open>Relations between the state before and the state after, used in the proofs.\<close>

definition same_artifacts :: "sync_state \<Rightarrow> sync_state \<Rightarrow> bool" where
  "same_artifacts s s' =
     (routes_of s' = routes_of s \<and> guides_of s' = guides_of s \<and> remote_log s' = remote_log s)"

text \<open>Invariants of the state. A state predicate is preserved by an operation when it
  holds after the operation wherever it held before; it is respected by the class when the
  writes that the methods are composed of preserve it: the notices, the flag, the two
  logs, and the eight store transactions.\<close>

definition preserves :: "(sync_state \<Rightarrow> bool) \<Rightarrow> (sync_state \<Rightarrow> 'a \<times> sync_state) \<Rightarrow> bool" where
  "preserves I m = (\<forall>s. I s \<longrightarrow> I (snd (m s)))"

definition respected :: "(sync_state \<Rightarrow> bool) \<Rightarrow> bool" where
  "respected I =
     ((\<forall>s ev. I s \<longrightarrow> I (toast ev s))
    \<and> (\<forall>s b. I s \<longrightarrow> I (s\<lparr>syncInProgress := b\<rparr>))
    \<and> (\<forall>s l. I s \<longrightarrow> I (s\<lparr>remote_log := l\<rparr>))
    \<and> (\<forall>s l. I s \<longrightarrow> I (s\<lparr>relay_log := l\<rparr>))
    \<and> (\<forall>e p usr. preserves I (savePendingRoute (new_pending e p usr)))
    \<and> (\<forall>e p usr. preserves I (savePendingGuide (new_pending e p usr)))
    \<and> (\<forall>e ty r. preserves I (queueEmailBackup e ty r))
    \<and> (\<forall>e k cid. preserves I (markRouteUploaded e k cid))
    \<and> (\<forall>e k cid. preserves I (markGuideUploaded e k cid))
    \<and> (\<forall>e n k. preserves I (incrementRetryCount e n k))
    \<and> (\<forall>e k. preserves I (markEmailSent e k))
    \<and> (\<forall>k. preserves I (incrementEmailRetry k)))"

text \<open>The keys of a store: in key order, without duplicates, and all below the store's
  key generator, as IndexedDB keeps an \<^verbatim>\<open>autoIncrement\<close> store that is only written by
  \<^verbatim>\<open>add\<close> without a key and by \<^verbatim>\<open>put\<close> of a record that was read from it.\<close>

definition keyed :: "('r \<Rightarrow> nat) \<Rightarrow> nat \<Rightarrow> 'r list \<Rightarrow> bool" where
  "keyed key gen xs = (sorted (map key xs) \<and> distinct (map key xs) \<and> list_all (\<lambda>x. key x < gen) xs)"

definition well_keyed :: "sync_state \<Rightarrow> bool" where
  "well_keyed s =
     (case db s of
        None \<Rightarrow> True
      | Some d \<Rightarrow>
          keyed localId (routeKeyGen d) (pending_routes d)
        \<and> keyed localId (guideKeyGen d) (pending_guides d)
        \<and> keyed email_item.id' (emailKeyGen d) (email_queue d))"

text \<open>The fields that neither the email drain nor a sync pass touches; the flag apart,
  which a pass sets and clears.\<close>

definition untouched :: "sync_state \<Rightarrow> sync_state \<Rightarrow> bool" where
  "untouched s s' =
     (timers s' = timers s \<and> isOnline s' = isOnline s \<and> emailJsLoaded s' = emailJsLoaded s
      \<and> pendingPhotos s' = pendingPhotos s \<and> pendingSurveys s' = pendingSurveys s
      \<and> syncInProgress s' = syncInProgress s)"

definition calm :: "sync_state \<Rightarrow> sync_state \<Rightarrow> bool" where
  "calm s s' =
     (timers s' = timers s \<and> isOnline s' = isOnline s \<and> emailJsLoaded s' = emailJsLoaded s
      \<and> pendingPhotos s' = pendingPhotos s \<and> pendingSurveys s' = pendingSurveys s)"

text \<open>What a pass of \<^verbatim>\<open>syncAllPending\<close> makes of a pending record, and its count of
  successes and failures.\<close>

definition route_result :: "env \<Rightarrow> pending_item \<Rightarrow> pending_item" where
  "route_result e r =
     (case uploadRoute e r of
        Inr cid \<Rightarrow> r\<lparr>pending_item.status := Uploaded, cloudId := Some cid,
                      pending_item.uploadedAt := Some (now e)\<rparr>
      | Inl _ \<Rightarrow> r\<lparr>pending_item.retryCount := pending_item.retryCount r + 1,
                    lastRetryAt := Some (now e)\<rparr>)"

definition guide_result :: "env \<Rightarrow> pending_item \<Rightarrow> pending_item" where
  "guide_result e r =
     (case uploadGuide e r of
        Inr cid \<Rightarrow> r\<lparr>pending_item.status := Uploaded, cloudId := Some cid,
                      pending_item.uploadedAt := Some (now e)\<rparr>
      | Inl _ \<Rightarrow> r\<lparr>pending_item.retryCount := pending_item.retryCount r + 1,
                    lastRetryAt := Some (now e)\<rparr>)"

text \<open>What the loop of \<^verbatim>\<open>processEmailQueue\<close> makes of an entry it is given, and the relay
  calls it makes for a list of entries. The loop is written in the source, but the read
  before it throws, so it is given none.\<close>

definition email_result :: "env \<Rightarrow> email_item \<Rightarrow> email_item" where
  "email_result e item =
     (if 3 \<le> email_item.retryCount item then item
      else if \<not> configured (emailjsConfig e) then item\<lparr>sent := True, sentAt := Some (now e)\<rparr>
      else (case emailjsSend e item of
              Inr _ \<Rightarrow> item\<lparr>sent := True, sentAt := Some (now e)\<rparr>
            | Inl _ \<Rightarrow> item\<lparr>email_item.retryCount := email_item.retryCount item + 1\<rparr>))"

definition relay_calls :: "env \<Rightarrow> email_item list \<Rightarrow> (nat \<times> relay_call) list" where
  "relay_calls e xs =
     (if configured (emailjsConfig e)
      then map (\<lambda>item. (email_item.id' item, relay_vars e item))
             (filter (\<lambda>item. email_item.retryCount item < 3) xs)
      else [])"

definition tally :: "('a \<Rightarrow> error + 'b) \<Rightarrow> 'a list \<Rightarrow> nat \<times> nat \<Rightarrow> nat \<times> nat" where
  "tally f xs cnt =
     (fst cnt + length (filter (\<lambda>x. \<not> isl (f x)) xs),
      snd cnt + length (filter (\<lambda>x. isl (f x)) xs))"

section \<open>Example values\<close>

text \<open>A signed-in user, an environment in which the route \<open>Loop Trail\<close> uploads and every
  other remote operation throws, the relay unconfigured, and the object after
  \<^verbatim>\<open>openDatabase\<close> on a browser without a database, offline and online.\<close>

definition hiker :: user where
  "hiker = \<lparr>uid = ''u1'', email = Some ''hiker@example.org'', displayName = Some ''Hiker''\<rparr>"

definition field_env :: env where
  "field_env =
     \<lparr>now = 100, navigatorOnLine = True, currentUser = Some hiker,
      uploadRoute = (\<lambda>r. if pending_item.data r = ''Loop Trail'' then Inr ''doc1''
                          else Inl RemoteWriteFailed),
      uploadGuide = (\<lambda>_. Inl RemoteWriteFailed),
      uploadPhoto = (\<lambda>_. Inl RemoteWriteFailed),
      submitSurvey = (\<lambda>_. Inl RemoteWriteFailed),
      emailjsConfig = \<lparr>serviceId = [], templateId = [], publicKey = []\<rparr>,
      backupEmail = ''backup@example.org'',
      emailjsSend = (\<lambda>_. Inr ()),
      stringify = pending_item.data,
      localeString = (\<lambda>_. ''today''),
      quotaExceeded = False,
      nowText = ''100'',
      randomSuffix = ''k3x9'',
      emailjsPresent = True,
      scriptLoads = True\<rparr>"

definition offline_start :: sync_state where
  "offline_start = openDatabase None (constructor False)"

definition online_start :: sync_state where
  "online_start = openDatabase None (constructor True)"

text \<open>The object online, after a route and a guide were saved with nobody signed in: both
  are stored and pending.\<close>

definition two_saved :: sync_state where
  "two_saved =
     perform_all [(field_env, SaveRoute ''Loop Trail'' None),
                  (field_env, SaveTrailGuide ''Ridge Guide'' None)] online_start"

text \<open>The same environment with the relay configured, and a snapshot to back up.\<close>

definition relay_env :: env where
  "relay_env = field_env\<lparr>emailjsConfig :=
     \<lparr>serviceId = ''service_1'', templateId = ''template_1'', publicKey = ''pk_1''\<rparr>\<rparr>"

definition loop_trail :: pending_item where
  "loop_trail = (new_pending field_env ''Loop Trail'' (Some hiker))\<lparr>localId := 1\<rparr>"

text \<open>A photo and a survey to queue, and an environment in which photo uploads and survey
  submissions succeed.\<close>

definition summit_photo :: photo_data where
  "summit_photo = \<lparr>content = ''data:image/jpeg;base64,AAAA'', photo_data.fileName = Some ''summit.jpg'',
     photo_data.mimeType = None, photo_data.location = None\<rparr>"

definition no_context :: queue_context where
  "no_context = \<lparr>queue_context.location = None, queue_context.routeId = None,
     queue_context.reportId = None\<rparr>"

definition cloud_env :: env where
  "cloud_env = field_env\<lparr>uploadPhoto := (\<lambda>_. Inr ''https://cdn.example.org/summit''),
     submitSurvey := (\<lambda>_. Inr ()), nowText := ''200'', randomSuffix := ''p7q2''\<rparr>"

text \<open>A photo queued online whose upload throws at once and in two further drains; the same
  for a survey.\<close>

definition three_failures :: sync_state where
  "three_failures =
     snd (processPhotoQueue field_env (snd (processPhotoQueue field_env
       (snd (queuePhoto field_env summit_photo no_context online_start)))))"

definition three_failed_surveys :: sync_state where
  "three_failed_surveys =
     snd (processSurveyQueue field_env (snd (processSurveyQueue field_env
       (snd (queueSurvey field_env ''steep steps'' no_context online_start)))))"

text \<open>A photo queued online and uploaded at once, its prune timer still set; then the
  connection is lost and a second photo is queued. The same for two surveys.\<close>

definition first_uploaded :: sync_state where
  "first_uploaded = snd (queuePhoto cloud_env summit_photo no_context online_start)"

definition second_queued :: sync_state where
  "second_queued = snd (queuePhoto field_env summit_photo no_context (onOffline first_uploaded))"

definition first_submitted :: sync_state where
  "first_submitted = snd (queueSurvey cloud_env ''wide path'' no_context online_start)"

definition second_survey_queued :: sync_state where
  "second_survey_queued =
     snd (queueSurvey field_env ''steep steps'' no_context (onOffline first_submitted))"

section \<open>Proofs\<close>


lemma and_then_Inr [simp]: "and_then (Inr v, s) f = f v s"
  by (simp add: and_then_def)
lemma and_then_Inl [simp]: "and_then (Inl err, s) f = (Inl err, s)"
  by (simp add: and_then_def)

lemma store_get_None: "k \<notin> key ` set xs \<Longrightarrow> store_get key k xs = None"
  by (auto simp: store_get_def find_None_iff)

lemma mark_uploaded_absent: "k \<notin> localId ` set xs \<Longrightarrow> mark_uploaded k cid t xs = xs"
  by (simp add: mark_uploaded_def store_get_None)

lemma bump_retry_absent: "k \<notin> localId ` set xs \<Longrightarrow> bump_retry k t xs = xs"
  by (simp add: bump_retry_def store_get_None)

lemma mark_sent_absent: "k \<notin> email_item.id' ` set xs \<Longrightarrow> mark_sent k t xs = xs"
  by (simp add: mark_sent_def store_get_None)

lemma bump_email_retry_absent: "k \<notin> email_item.id' ` set xs \<Longrightarrow> bump_email_retry k xs = xs"
  by (simp add: bump_email_retry_def store_get_None)

lemma same_db: "db s = Some d \<Longrightarrow> s\<lparr>db := Some d\<rparr> = s"
  by (cases s) simp

lemma store_put_ok:
  "list_all P xs \<Longrightarrow> P r \<Longrightarrow> list_all P (store_put key r xs)"
  by (auto simp: store_put_def list_all_iff set_insort_key)

lemma store_get_mem: "store_get key k xs = Some x \<Longrightarrow> x \<in> set xs \<and> key x = k"
  by (auto simp: store_get_def find_Some_iff)

lemma mark_uploaded_ok: "list_all artifact_ok xs \<Longrightarrow> list_all artifact_ok (mark_uploaded k cid t xs)"
  by (auto simp: mark_uploaded_def artifact_ok_def intro!: store_put_ok split: option.splits)

lemma bump_retry_ok:
  assumes "list_all artifact_ok xs"
  shows "list_all artifact_ok (bump_retry k t xs)"
proof (cases "store_get localId k xs")
  case None
  then show ?thesis using assms by (simp add: bump_retry_def)
next
  case (Some item)
  then have "artifact_ok item"
    using assms store_get_mem[OF Some] by (simp add: list_all_iff)
  then have "artifact_ok (item\<lparr>pending_item.retryCount := pending_item.retryCount item + 1,
                  lastRetryAt := Some t\<rparr>)"
    by (simp add: artifact_ok_def)
  with assms Some show ?thesis
    by (simp add: bump_retry_def store_put_ok)
qed

lemma markRouteUploaded_ok: "store_ok s \<Longrightarrow> store_ok (snd (markRouteUploaded e k cid s))"
  by (auto simp: store_ok_def routes_of_def guides_of_def markRouteUploaded_def mark_uploaded_ok
      split: option.splits)

lemma markGuideUploaded_ok: "store_ok s \<Longrightarrow> store_ok (snd (markGuideUploaded e k cid s))"
  by (auto simp: store_ok_def routes_of_def guides_of_def markGuideUploaded_def mark_uploaded_ok
      split: option.splits)

lemma incrementRetryCount_ok: "store_ok s \<Longrightarrow> store_ok (snd (incrementRetryCount e n k s))"
  by (auto simp: store_ok_def routes_of_def guides_of_def incrementRetryCount_def bump_retry_ok
      split: option.splits store_name.splits)

text \<open>Operations that leave routes and guides alone.\<close>

lemma same_artifacts_ok: "same_artifacts s s' \<Longrightarrow> store_ok s \<Longrightarrow> store_ok s'"
  by (simp add: same_artifacts_def store_ok_def)

lemma same_artifacts_refl [simp]: "same_artifacts s s"
  by (simp add: same_artifacts_def)

lemma same_artifacts_trans: "same_artifacts s s1 \<Longrightarrow> same_artifacts s1 s2 \<Longrightarrow> same_artifacts s s2"
  by (simp add: same_artifacts_def)

lemma toast_same [simp]: "routes_of (toast ev s) = routes_of s" "guides_of (toast ev s) = guides_of s"
  "remote_log (toast ev s) = remote_log s"
  by (simp_all add: toast_def routes_of_def guides_of_def)

lemma sendEmailBackup_same: "same_artifacts s (snd (sendEmailBackup e item s))"
  by (simp add: sendEmailBackup_def same_artifacts_def routes_of_def guides_of_def)

lemma markEmailSent_same: "same_artifacts s (snd (markEmailSent e k s))"
  by (simp add: markEmailSent_def same_artifacts_def routes_of_def guides_of_def split: option.splits)

lemma incrementEmailRetry_same: "same_artifacts s (snd (incrementEmailRetry k s))"
  by (simp add: incrementEmailRetry_def same_artifacts_def routes_of_def guides_of_def split: option.splits)

lemma and_then_snd:
  assumes "\<And>s. P s (snd (m s))" "\<And>v s. P s (snd (f v s))" "\<And>a b c. P a b \<Longrightarrow> P b c \<Longrightarrow> P a c"
  shows "P s (snd (and_then (m s) f))"
proof (cases "m s")
  case (Pair r s1)
  have 1: "P s s1" using assms(1)[of s] Pair by simp
  show ?thesis
  proof (cases r)
    case (Inl err) with Pair 1 show ?thesis by simp
  next
    case (Inr v)
    with Pair have "and_then (m s) f = f v s1" by simp
    with assms(2)[of s1 v] 1 assms(3) show ?thesis by metis
  qed
qed

lemma drain_email_same: "same_artifacts s (snd (drain_email e item acc s))"
proof -
  have 1: "same_artifacts s (snd (and_then (sendEmailBackup e item s) (\<lambda>_. markEmailSent e (email_item.id' item))))"
    by (rule and_then_snd[where m="sendEmailBackup e item" and P=same_artifacts])
       (auto intro: sendEmailBackup_same markEmailSent_same same_artifacts_trans)
  show ?thesis
    unfolding drain_email_def
    using 1 incrementEmailRetry_same same_artifacts_trans
    by (auto split: prod.splits sum.splits)
qed

lemma for_each_pres:
  assumes "\<And>x acc s. P s (snd (body x acc s))" "\<And>s. P s s" "\<And>a b c. P a b \<Longrightarrow> P b c \<Longrightarrow> P a c"
  shows "P s (snd (for_each body xs acc s))"
proof (induction xs arbitrary: acc s)
  case Nil
  then show ?case by (simp add: assms(2))
next
  case (Cons x xs)
  show ?case
  proof (cases "body x acc s")
    case (Pair r s1)
    have 1: "P s s1" using assms(1)[of s x acc] Pair by simp
    show ?thesis
    proof (cases r)
      case (Inl err) with Pair 1 show ?thesis by simp
    next
      case (Inr acc1)
      with Pair have "for_each body (x # xs) acc s = for_each body xs acc1 s1" by simp
      with Cons.IH[of s1 acc1] 1 assms(3) show ?thesis by metis
    qed
  qed
qed

lemma processEmailQueue_same: "same_artifacts s (processEmailQueue e s)"
  unfolding processEmailQueue_def
  by (auto simp: Let_def split: option.splits sum.splits
      intro!: for_each_pres[where P=same_artifacts] drain_email_same intro: same_artifacts_trans)




subsection \<open>Preservation of an invariant\<close>

lemma preservesD: "preserves I m \<Longrightarrow> I s \<Longrightarrow> I (snd (m s))"
  by (simp add: preserves_def)

lemma preserves_and_then:
  "preserves I m \<Longrightarrow> (\<And>v. preserves I (f v)) \<Longrightarrow> preserves I (\<lambda>s. and_then (m s) f)"
  unfolding preserves_def and_then_def
  by (auto split: prod.splits sum.splits)

lemma preserves_try:
  "preserves I m \<Longrightarrow> (\<And>v. preserves I (f v)) \<Longrightarrow> (\<And>err. preserves I (g err)) \<Longrightarrow>
   preserves I (\<lambda>s. case m s of (Inr v, s1) \<Rightarrow> f v s1 | (Inl err, s1) \<Rightarrow> g err s1)"
  unfolding preserves_def
  by (auto split: prod.splits sum.splits)

lemma preserves_if:
  "preserves I m1 \<Longrightarrow> preserves I m2 \<Longrightarrow> preserves I (\<lambda>s. if b s then m1 s else m2 s)"
  by (simp add: preserves_def)

lemma preserves_option:
  "preserves I g \<Longrightarrow> (\<And>u. preserves I (f u)) \<Longrightarrow>
   preserves I (\<lambda>s. case c s of None \<Rightarrow> g s | Some u \<Rightarrow> f u s)"
  by (simp add: preserves_def split: option.splits)

lemma preserves_after:
  "preserves I m \<Longrightarrow> (\<And>s. I s \<Longrightarrow> I (h s)) \<Longrightarrow> preserves I (\<lambda>s. m (h s))"
  by (simp add: preserves_def)

lemma preserves_ret: "(\<And>s. I s \<Longrightarrow> I (h s)) \<Longrightarrow> preserves I (\<lambda>s. (v, h s))"
  by (simp add: preserves_def)

lemma preserves_for_each:
  assumes "\<And>x acc. preserves I (body x acc)"
  shows "preserves I (for_each body xs acc)"
  unfolding preserves_def
proof (rule allI)
  fix s
  show "I s \<longrightarrow> I (snd (for_each body xs acc s))"
    by (rule for_each_pres[where P="\<lambda>a b. I a \<longrightarrow> I b"])
       (use assms in \<open>auto simp: preserves_def\<close>)
qed

lemma preserves_get: "preserves I getPendingRoutes" "preserves I getPendingGuides"
  by (simp_all add: preserves_def getPendingRoutes_def getPendingGuides_def split: option.splits)

lemma respected_simple:
  assumes "respected I" "I s"
  shows "I (toast ev s)" "I (s\<lparr>syncInProgress := b\<rparr>)" "I (s\<lparr>remote_log := l\<rparr>)"
    "I (s\<lparr>relay_log := l'\<rparr>)"
  using assms by (simp_all add: respected_def)

lemma respected_prims:
  assumes "respected I"
  shows "preserves I (savePendingRoute (new_pending e p usr))"
    "preserves I (savePendingGuide (new_pending e p usr))"
    "preserves I (queueEmailBackup e ty r)"
    "preserves I (markRouteUploaded e k cid)"
    "preserves I (markGuideUploaded e k cid)"
    "preserves I (incrementRetryCount e n k)"
    "preserves I (markEmailSent e k)"
    "preserves I (incrementEmailRetry k)"
  using assms by (simp_all add: respected_def)

lemma respected_upload:
  assumes "respected I"
  shows "preserves I (uploadRouteToCloud e r u)" "preserves I (uploadGuideToCloud e r u)"
    "preserves I (sendEmailBackup e item)"
  using respected_simple[OF assms]
  by (simp_all add: preserves_def uploadRouteToCloud_def uploadGuideToCloud_def sendEmailBackup_def)

lemma drain_email_preserves:
  assumes "respected I"
  shows "preserves I (drain_email e item acc)"
  unfolding drain_email_def
  by (intro preserves_if preserves_try preserves_and_then preserves_ret
      respected_prims[OF assms] respected_upload[OF assms])

lemma processEmailQueue_preserves:
  assumes "respected I" "I s"
  shows "I (processEmailQueue e s)"
proof -
  have "I (snd (for_each (drain_email e) xs () s))" for xs
  proof -
    have "preserves I (for_each (drain_email e) xs ())"
      by (rule preserves_for_each) (rule drain_email_preserves[OF assms(1)])
    then show ?thesis using assms(2) by (simp add: preserves_def)
  qed
  with assms(2) show ?thesis
    by (simp add: processEmailQueue_def Let_def split: option.splits sum.splits)
qed

lemma saved_locally_preserves: "respected I \<Longrightarrow> preserves I (saved_locally e k)"
  by (simp add: preserves_def saved_locally_def processEmailQueue_preserves)

lemma saveRoute_preserves:
  assumes "respected I"
  shows "preserves I (saveRoute e p usr)"
  unfolding saveRoute_def Let_def
  by (intro preserves_and_then preserves_try preserves_option preserves_if
      respected_prims[OF assms] respected_upload[OF assms]
      preserves_after[OF saved_locally_preserves[OF assms]] saved_locally_preserves[OF assms]
      preserves_ret respected_simple[OF assms])

lemma saveTrailGuide_preserves:
  assumes "respected I"
  shows "preserves I (saveTrailGuide e p usr)"
  unfolding saveTrailGuide_def Let_def
  by (intro preserves_and_then preserves_try preserves_option preserves_if
      respected_prims[OF assms] respected_upload[OF assms]
      preserves_after[OF saved_locally_preserves[OF assms]] saved_locally_preserves[OF assms]
      preserves_ret respected_simple[OF assms])

lemma sync_route_preserves: "respected I \<Longrightarrow> preserves I (sync_route e u route cnt)"
  unfolding sync_route_def
  by (intro preserves_and_then preserves_try preserves_ret respected_prims respected_upload)

lemma sync_guide_preserves: "respected I \<Longrightarrow> preserves I (sync_guide e u guide cnt)"
  unfolding sync_guide_def
  by (intro preserves_and_then preserves_try preserves_ret respected_prims respected_upload)

lemma show_results_preserves: "respected I \<Longrightarrow> I s \<Longrightarrow> I (show_results cnt s)"
  by (simp add: show_results_def Let_def respected_simple)

lemma sync_pass_preserves:
  assumes "respected I"
  shows "preserves I (sync_pass e u)"
  unfolding sync_pass_def Let_def
  by (intro preserves_and_then preserves_get preserves_if preserves_ret
      preserves_after[OF preserves_for_each] preserves_for_each
      sync_route_preserves[OF assms] sync_guide_preserves[OF assms]
      respected_simple[OF assms] processEmailQueue_preserves[OF assms]
      show_results_preserves[OF assms])

lemma syncAllPending_preserves:
  assumes "respected I"
  shows "preserves I (syncAllPending e)"
  unfolding preserves_def
proof (intro allI impI)
  fix s assume s: "I s"
  show "I (snd (syncAllPending e s))"
  proof (cases "currentUser e")
    case None
    then show ?thesis
      using s respected_simple[OF assms] by (simp add: syncAllPending_def)
  next
    case (Some u)
    obtain r s1 where sp: "sync_pass e u (s\<lparr>syncInProgress := True\<rparr>) = (r, s1)"
      by (metis surj_pair)
    have "I (s\<lparr>syncInProgress := True\<rparr>)" using s respected_simple[OF assms] by blast
    then have "I s1"
      using preservesD[OF sync_pass_preserves[OF assms], of "s\<lparr>syncInProgress := True\<rparr>" e u] sp
      by simp
    then have "I (s1\<lparr>syncInProgress := False\<rparr>)"
      and "I ((toast (ToastError ''Sync failed'') s1)\<lparr>syncInProgress := False\<rparr>)"
      using respected_simple[OF assms] by blast+
    with Some sp s respected_simple[OF assms] show ?thesis
      by (cases r) (auto simp: syncAllPending_def)
  qed
qed

lemma perform_preserves: "respected I \<Longrightarrow> I s \<Longrightarrow> I (perform e x s)"
  by (cases x)
     (simp_all add: preservesD[OF saveRoute_preserves] preservesD[OF saveTrailGuide_preserves]
      preservesD[OF syncAllPending_preserves] preservesD[OF respected_prims(4)]
      preservesD[OF respected_prims(5)] preservesD[OF respected_prims(6)])

lemma perform_all_preserves: "respected I \<Longrightarrow> I s \<Longrightarrow> I (perform_all ops s)"
  by (induction ops arbitrary: s) (auto simp: perform_preserves)

subsection \<open>The two invariants\<close>

lemma store_get_Some_key: "store_get key k xs = Some y \<Longrightarrow> key y = k"
  by (auto simp: store_get_def find_Some_iff)

lemma keyed_add: "keyed key gen xs \<Longrightarrow> key r = gen \<Longrightarrow> keyed key (Suc gen) (xs @ [r])"
  by (auto simp: keyed_def sorted_append list_all_iff less_Suc_eq order.strict_implies_order)

lemma keyed_replace:
  assumes "keyed key gen xs" "store_get key (key r) xs \<noteq> None"
  shows "keyed key gen (store_put key r xs)"
proof -
  define ys where "ys = map (\<lambda>x. if key x = key r then r else x) xs"
  have keys: "map key ys = map key xs"
    unfolding ys_def by (induction xs) auto
  have "list_all (\<lambda>x. key x < gen) ys"
    using assms(1) by (auto simp: ys_def keyed_def list_all_iff)
  with keys assms(1) have "keyed key gen ys"
    by (simp only: keyed_def)
  moreover have "store_put key r xs = ys"
    using assms(2) by (auto simp: store_put_def ys_def)
  ultimately show ?thesis by simp
qed

lemma mark_uploaded_keyed: "keyed localId gen xs \<Longrightarrow> keyed localId gen (mark_uploaded k cid t xs)"
  by (auto simp: mark_uploaded_def store_get_Some_key intro!: keyed_replace split: option.splits)

lemma bump_retry_keyed: "keyed localId gen xs \<Longrightarrow> keyed localId gen (bump_retry k t xs)"
  by (auto simp: bump_retry_def store_get_Some_key intro!: keyed_replace split: option.splits)

lemma mark_sent_keyed: "keyed email_item.id' gen xs \<Longrightarrow> keyed email_item.id' gen (mark_sent k t xs)"
  by (auto simp: mark_sent_def store_get_Some_key intro!: keyed_replace split: option.splits)

lemma bump_email_retry_keyed:
  "keyed email_item.id' gen xs \<Longrightarrow> keyed email_item.id' gen (bump_email_retry k xs)"
  by (auto simp: bump_email_retry_def store_get_Some_key intro!: keyed_replace split: option.splits)

lemma respected_well_keyed: "respected well_keyed"
  unfolding respected_def preserves_def
  by (auto simp: well_keyed_def toast_def savePendingRoute_def savePendingGuide_def
      queueEmailBackup_def markRouteUploaded_def markGuideUploaded_def incrementRetryCount_def
      markEmailSent_def incrementEmailRetry_def email_entry_def
      mark_uploaded_keyed bump_retry_keyed mark_sent_keyed bump_email_retry_keyed
      intro!: keyed_add split: option.splits store_name.splits)

lemma store_ok_simple:
  "store_ok (toast ev s) = store_ok s" "store_ok (s\<lparr>syncInProgress := b\<rparr>) = store_ok s"
  "store_ok (s\<lparr>remote_log := l\<rparr>) = store_ok s" "store_ok (s\<lparr>relay_log := l'\<rparr>) = store_ok s"
  by (simp_all add: store_ok_def routes_of_def guides_of_def toast_def)

lemma email_store_ok:
  "store_ok (snd (markEmailSent e k s)) = store_ok s"
  "store_ok (snd (incrementEmailRetry k s)) = store_ok s"
  "store_ok (snd (queueEmailBackup e ty r s)) = store_ok s"
  by (auto simp: store_ok_def routes_of_def guides_of_def markEmailSent_def
      incrementEmailRetry_def queueEmailBackup_def split: option.splits)

lemma savePending_ok:
  "store_ok s \<Longrightarrow> store_ok (snd (savePendingRoute (new_pending e p usr) s))"
  "store_ok s \<Longrightarrow> store_ok (snd (savePendingGuide (new_pending e p usr) s))"
  by (auto simp: store_ok_def routes_of_def guides_of_def savePendingRoute_def
      savePendingGuide_def artifact_ok_def new_pending_def split: option.splits)

lemma respected_store_ok: "respected store_ok"
  unfolding respected_def preserves_def
  by (simp add: store_ok_simple email_store_ok savePending_ok markRouteUploaded_ok
      markGuideUploaded_ok incrementRetryCount_ok)

lemma well_keyed_fresh: "well_keyed (openDatabase None (constructor onLine))"
  by (simp add: well_keyed_def keyed_def openDatabase_def constructor_def empty_database_def)

text \<open>So the stores are well keyed in every state that the operations reach from a freshly
  created database, and also after a drain of the email queue; the hypotheses on keys of
  the theorems on the sync pass and on the email queue follow from it.\<close>

lemma well_keyed_reachable:
  "well_keyed (perform_all ops (openDatabase None (constructor onLine)))"
  by (rule perform_all_preserves[OF respected_well_keyed well_keyed_fresh])

lemma well_keyed_drain: "well_keyed s \<Longrightarrow> well_keyed (processEmailQueue e s)"
  by (rule processEmailQueue_preserves[OF respected_well_keyed])

lemma well_keyed_keys:
  assumes "well_keyed s" "db s = Some d"
  shows "distinct (map localId (pending_routes d))" "distinct (map localId (pending_guides d))"
    "distinct (map email_item.id' (email_queue d))"
    "\<forall>x \<in> set (email_queue d). email_item.id' x < emailKeyGen d"
  using assms by (simp_all add: well_keyed_def keyed_def list_all_iff)

lemma processEmailQueue_offline: "\<not> isOnline s \<Longrightarrow> processEmailQueue e s = s"
  by (simp add: processEmailQueue_def)

text \<open>The read through the index throws for the query \<^verbatim>\<open>false\<close>, so the drain never
  gets to its loop.\<close>

lemma getAll_false_throws: "index_getAll keyPath (Boolean b) xs = Inl DataError"
  by (simp add: index_getAll_def valid_key_def)

lemma processEmailQueue_inert: "processEmailQueue e s = s"
  by (simp add: processEmailQueue_def getAll_false_throws split: option.splits)

lemma store_get_distinct:
  "distinct (map key xs) \<Longrightarrow> x \<in> set xs \<Longrightarrow> store_get key (key x) xs = Some x"
  unfolding store_get_def
  by (induction xs) (auto simp: rev_image_eqI)

lemma store_put_replace:
  assumes "distinct (map key xs)" "x \<in> set xs" "key x' = key x"
  shows "store_put key x' xs = map (\<lambda>y. if key y = key x then x' else y) xs"
  using assms store_get_distinct[OF assms(1,2)] by (simp add: store_put_def)

lemma map_keys_update:
  "(\<And>y. key (f y) = key y) \<Longrightarrow> map key (map (\<lambda>y. if P y then f y else y) xs) = map key xs"
  by (induction xs) auto

lemma mark_uploaded_present:
  assumes "distinct (map localId xs)" "x \<in> set xs"
  shows "mark_uploaded (localId x) cid t xs =
     map (\<lambda>y. if localId y = localId x
               then x\<lparr>pending_item.status := Uploaded, cloudId := Some cid,
                      pending_item.uploadedAt := Some t\<rparr> else y) xs"
  using store_get_distinct[OF assms] store_put_replace[OF assms]
  by (simp add: mark_uploaded_def)

lemma bump_retry_present:
  assumes "distinct (map localId xs)" "x \<in> set xs"
  shows "bump_retry (localId x) t xs =
     map (\<lambda>y. if localId y = localId x
               then x\<lparr>pending_item.retryCount := pending_item.retryCount x + 1,
                      lastRetryAt := Some t\<rparr> else y) xs"
  using store_get_distinct[OF assms] store_put_replace[OF assms]
  by (simp add: bump_retry_def)

lemma key_eq_in_distinct:
  "distinct (map key xs) \<Longrightarrow> x \<in> set xs \<Longrightarrow> y \<in> set xs \<Longrightarrow> key y = key x \<Longrightarrow> y = x"
  by (meson distinct_map inj_onD)

lemma replace_by_key:
  assumes "distinct (map key xs)" "x \<in> set xs"
  shows "map (\<lambda>y. if key y = key x then f x else y) xs = map (\<lambda>y. if key y = key x then f y else y) xs"
  using key_eq_in_distinct[OF assms] by (auto intro!: map_cong)

lemma route_outcome_in_store:
  assumes "distinct (map localId xs)" "x \<in> set xs"
  shows "(case uploadRoute e x of
            Inr cid \<Rightarrow> mark_uploaded (localId x) cid (now e) xs
          | Inl _ \<Rightarrow> bump_retry (localId x) (now e) xs) =
         map (\<lambda>y. if localId y = localId x then route_result e y else y) xs"
proof -
  have "(case uploadRoute e x of
            Inr cid \<Rightarrow> mark_uploaded (localId x) cid (now e) xs
          | Inl _ \<Rightarrow> bump_retry (localId x) (now e) xs) =
        map (\<lambda>y. if localId y = localId x then route_result e x else y) xs"
    by (cases "uploadRoute e x")
       (simp_all add: mark_uploaded_present[OF assms] bump_retry_present[OF assms] route_result_def)
  also have "\<dots> = map (\<lambda>y. if localId y = localId x then route_result e y else y) xs"
    by (rule replace_by_key[OF assms])
  finally show ?thesis .
qed

lemma guide_outcome_in_store:
  assumes "distinct (map localId xs)" "x \<in> set xs"
  shows "(case uploadGuide e x of
            Inr cid \<Rightarrow> mark_uploaded (localId x) cid (now e) xs
          | Inl _ \<Rightarrow> bump_retry (localId x) (now e) xs) =
         map (\<lambda>y. if localId y = localId x then guide_result e y else y) xs"
proof -
  have "(case uploadGuide e x of
            Inr cid \<Rightarrow> mark_uploaded (localId x) cid (now e) xs
          | Inl _ \<Rightarrow> bump_retry (localId x) (now e) xs) =
        map (\<lambda>y. if localId y = localId x then guide_result e x else y) xs"
    by (cases "uploadGuide e x")
       (simp_all add: mark_uploaded_present[OF assms] bump_retry_present[OF assms] guide_result_def)
  also have "\<dots> = map (\<lambda>y. if localId y = localId x then guide_result e y else y) xs"
    by (rule replace_by_key[OF assms])
  finally show ?thesis .
qed

lemma sync_route_step:
  assumes "db s = Some d" "distinct (map localId (pending_routes d))" "x \<in> set (pending_routes d)"
  shows "sync_route e u x cnt s =
    (Inr (tally (uploadRoute e) [x] cnt),
     s\<lparr>db := Some (d\<lparr>pending_routes :=
              map (\<lambda>y. if localId y = localId x then route_result e y else y) (pending_routes d)\<rparr>),
       remote_log := remote_log s @ [route_call u x]\<rparr>)"
proof -
  have "sync_route e u x cnt s =
    (Inr (tally (uploadRoute e) [x] cnt),
     s\<lparr>db := Some (d\<lparr>pending_routes :=
              (case uploadRoute e x of
                 Inr cid \<Rightarrow> mark_uploaded (localId x) cid (now e) (pending_routes d)
               | Inl _ \<Rightarrow> bump_retry (localId x) (now e) (pending_routes d))\<rparr>),
       remote_log := remote_log s @ [route_call u x]\<rparr>)"
    using assms(1)
    by (cases "uploadRoute e x")
       (simp_all add: sync_route_def uploadRouteToCloud_def incrementRetryCount_def
        markRouteUploaded_def route_call_def tally_def)
  then show ?thesis
    by (simp only: route_outcome_in_store[OF assms(2,3)])
qed

lemma sync_guide_step:
  assumes "db s = Some d" "distinct (map localId (pending_guides d))" "x \<in> set (pending_guides d)"
  shows "sync_guide e u x cnt s =
    (Inr (tally (uploadGuide e) [x] cnt),
     s\<lparr>db := Some (d\<lparr>pending_guides :=
              map (\<lambda>y. if localId y = localId x then guide_result e y else y) (pending_guides d)\<rparr>),
       remote_log := remote_log s @ [guide_call u x]\<rparr>)"
proof -
  have "sync_guide e u x cnt s =
    (Inr (tally (uploadGuide e) [x] cnt),
     s\<lparr>db := Some (d\<lparr>pending_guides :=
              (case uploadGuide e x of
                 Inr cid \<Rightarrow> mark_uploaded (localId x) cid (now e) (pending_guides d)
               | Inl _ \<Rightarrow> bump_retry (localId x) (now e) (pending_guides d))\<rparr>),
       remote_log := remote_log s @ [guide_call u x]\<rparr>)"
    using assms(1)
    by (cases "uploadGuide e x")
       (simp_all add: sync_guide_def uploadGuideToCloud_def incrementRetryCount_def
        markGuideUploaded_def guide_call_def tally_def)
  then show ?thesis
    by (simp only: guide_outcome_in_store[OF assms(2,3)])
qed


lemma result_keeps_key [simp]:
  "localId (route_result e y) = localId y" "localId (guide_result e y) = localId y"
  by (simp_all add: route_result_def guide_result_def split: sum.splits)

lemma map_update_compose:
  assumes "\<And>y. key (f y) = key y" "key x \<notin> key ` set xs"
  shows "map (\<lambda>y. if key y \<in> key ` set xs then f y else y)
           (map (\<lambda>y. if key y = key x then f y else y) ys) =
         map (\<lambda>y. if key y \<in> key ` set (x # xs) then f y else y) ys"
  using assms by auto

lemma rest_still_stored:
  assumes "set (x # xs) \<subseteq> set ys" "distinct (map key (x # xs))"
  shows "set xs \<subseteq> set (map (\<lambda>y. if key y = key x then f y else y) ys)"
proof
  fix z assume z: "z \<in> set xs"
  then have "key z \<noteq> key x" using assms(2) by (auto simp: image_iff)
  moreover have "z \<in> set ys" using z assms(1) by auto
  ultimately show "z \<in> set (map (\<lambda>y. if key y = key x then f y else y) ys)"
    by (auto simp: image_iff intro!: bexI[where x=z])
qed

lemma tally_Cons: "tally f xs (tally f [x] cnt) = tally f (x # xs) cnt"
  by (simp add: tally_def)

lemma for_each_sync_route:
  assumes "db s = Some d" "distinct (map localId (pending_routes d))"
    "set xs \<subseteq> set (pending_routes d)" "distinct (map localId xs)"
  shows "for_each (sync_route e u) xs cnt s =
    (Inr (tally (uploadRoute e) xs cnt),
     s\<lparr>db := Some (d\<lparr>pending_routes :=
              map (\<lambda>y. if localId y \<in> localId ` set xs then route_result e y else y)
                (pending_routes d)\<rparr>),
       remote_log := remote_log s @ map (route_call u) xs\<rparr>)"
  using assms
proof (induction xs arbitrary: s d cnt)
  case Nil
  then show ?case by (simp add: tally_def same_db)
next
  case (Cons x xs)
  let ?ys = "map (\<lambda>y. if localId y = localId x then route_result e y else y) (pending_routes d)"
  let ?d1 = "d\<lparr>pending_routes := ?ys\<rparr>"
  let ?s1 = "s\<lparr>db := Some ?d1, remote_log := remote_log s @ [route_call u x]\<rparr>"
  have x: "x \<in> set (pending_routes d)" using Cons.prems(3) by simp
  have step: "sync_route e u x cnt s = (Inr (tally (uploadRoute e) [x] cnt), ?s1)"
    by (rule sync_route_step[OF Cons.prems(1,2) x])
  have d1: "db ?s1 = Some ?d1" by simp
  have dist: "distinct (map localId (pending_routes ?d1))"
    using Cons.prems(2) by (simp add: map_keys_update[where key=localId and f="route_result e"] del: map_map)
  have sub: "set xs \<subseteq> set (pending_routes ?d1)"
    using rest_still_stored[OF Cons.prems(3,4), of "route_result e"] by simp
  have dxs: "distinct (map localId xs)" using Cons.prems(4) by simp
  have fresh: "localId x \<notin> localId ` set xs" using Cons.prems(4) by simp
  have "for_each (sync_route e u) (x # xs) cnt s
        = for_each (sync_route e u) xs (tally (uploadRoute e) [x] cnt) ?s1"
    by (simp add: step)
  also have "\<dots> = (Inr (tally (uploadRoute e) xs (tally (uploadRoute e) [x] cnt)),
     ?s1\<lparr>db := Some (?d1\<lparr>pending_routes :=
              map (\<lambda>y. if localId y \<in> localId ` set xs then route_result e y else y)
                (pending_routes ?d1)\<rparr>),
       remote_log := remote_log ?s1 @ map (route_call u) xs\<rparr>)"
    by (rule Cons.IH[OF d1 dist sub dxs])
  also have "\<dots> = (Inr (tally (uploadRoute e) (x # xs) cnt),
     s\<lparr>db := Some (d\<lparr>pending_routes :=
              map (\<lambda>y. if localId y \<in> localId ` set (x # xs) then route_result e y else y)
                (pending_routes d)\<rparr>),
       remote_log := remote_log s @ map (route_call u) (x # xs)\<rparr>)"
    using map_update_compose[where key=localId and f="route_result e" and x=x and xs=xs
        and ys="pending_routes d", OF _ fresh]
    by (simp add: tally_Cons del: map_map)
  finally show ?case .
qed

lemma for_each_sync_guide:
  assumes "db s = Some d" "distinct (map localId (pending_guides d))"
    "set xs \<subseteq> set (pending_guides d)" "distinct (map localId xs)"
  shows "for_each (sync_guide e u) xs cnt s =
    (Inr (tally (uploadGuide e) xs cnt),
     s\<lparr>db := Some (d\<lparr>pending_guides :=
              map (\<lambda>y. if localId y \<in> localId ` set xs then guide_result e y else y)
                (pending_guides d)\<rparr>),
       remote_log := remote_log s @ map (guide_call u) xs\<rparr>)"
  using assms
proof (induction xs arbitrary: s d cnt)
  case Nil
  then show ?case by (simp add: tally_def same_db)
next
  case (Cons x xs)
  let ?ys = "map (\<lambda>y. if localId y = localId x then guide_result e y else y) (pending_guides d)"
  let ?d1 = "d\<lparr>pending_guides := ?ys\<rparr>"
  let ?s1 = "s\<lparr>db := Some ?d1, remote_log := remote_log s @ [guide_call u x]\<rparr>"
  have x: "x \<in> set (pending_guides d)" using Cons.prems(3) by simp
  have step: "sync_guide e u x cnt s = (Inr (tally (uploadGuide e) [x] cnt), ?s1)"
    by (rule sync_guide_step[OF Cons.prems(1,2) x])
  have d1: "db ?s1 = Some ?d1" by simp
  have dist: "distinct (map localId (pending_guides ?d1))"
    using Cons.prems(2) by (simp add: map_keys_update[where key=localId and f="guide_result e"] del: map_map)
  have sub: "set xs \<subseteq> set (pending_guides ?d1)"
    using rest_still_stored[OF Cons.prems(3,4), of "guide_result e"] by simp
  have dxs: "distinct (map localId xs)" using Cons.prems(4) by simp
  have fresh: "localId x \<notin> localId ` set xs" using Cons.prems(4) by simp
  have "for_each (sync_guide e u) (x # xs) cnt s
        = for_each (sync_guide e u) xs (tally (uploadGuide e) [x] cnt) ?s1"
    by (simp add: step)
  also have "\<dots> = (Inr (tally (uploadGuide e) xs (tally (uploadGuide e) [x] cnt)),
     ?s1\<lparr>db := Some (?d1\<lparr>pending_guides :=
              map (\<lambda>y. if localId y \<in> localId ` set xs then guide_result e y else y)
                (pending_guides ?d1)\<rparr>),
       remote_log := remote_log ?s1 @ map (guide_call u) xs\<rparr>)"
    by (rule Cons.IH[OF d1 dist sub dxs])
  also have "\<dots> = (Inr (tally (uploadGuide e) (x # xs) cnt),
     s\<lparr>db := Some (d\<lparr>pending_guides :=
              map (\<lambda>y. if localId y \<in> localId ` set (x # xs) then guide_result e y else y)
                (pending_guides d)\<rparr>),
       remote_log := remote_log s @ map (guide_call u) (x # xs)\<rparr>)"
    using map_update_compose[where key=localId and f="guide_result e" and x=x and xs=xs
        and ys="pending_guides d", OF _ fresh]
    by (simp add: tally_Cons del: map_map)
  finally show ?case .
qed


lemma pending_keys:
  assumes "distinct (map key ys)" "y \<in> set ys"
  shows "(key y \<in> key ` set (filter P ys)) = P y"
  using assms key_eq_in_distinct[OF assms(1)] by (auto simp: image_iff)

lemma update_pending:
  assumes "distinct (map key ys)"
  shows "map (\<lambda>y. if key y \<in> key ` set (filter P ys) then f y else y) ys =
         map (\<lambda>y. if P y then f y else y) ys"
  using pending_keys[OF assms] by (auto intro!: map_cong)

lemma store_get_map:
  assumes "distinct (map key xs)" "x \<in> set xs" "\<And>y. key (f y) = key y"
  shows "store_get key (key x) (map f xs) = Some (f x)"
proof -
  have eq: "map key (map f xs) = map key xs" using assms(3) by simp
  have "distinct (map key (map f xs))" by (simp only: eq assms(1))
  moreover have "f x \<in> set (map f xs)" using assms(2) by simp
  ultimately have "store_get key (key (f x)) (map f xs) = Some (f x)"
    by (rule store_get_distinct)
  then show ?thesis by (simp add: assms(3))
qed

lemma sync_pass_result:
  assumes "db s = Some d" "distinct (map localId (pending_routes d))"
    "distinct (map localId (pending_guides d))"
    "filter is_pending (pending_routes d) @ filter is_pending (pending_guides d) \<noteq> []"
  shows "\<exists>cnt s4. sync_pass e u s =
           (Inr (Synced (fst cnt) (snd cnt)), processEmailQueue e (show_results cnt s4))
     \<and> routes_of s4 = map (\<lambda>y. if is_pending y then route_result e y else y) (pending_routes d)
     \<and> guides_of s4 = map (\<lambda>y. if is_pending y then guide_result e y else y) (pending_guides d)
     \<and> remote_log s4 = remote_log s @ map (route_call u) (filter is_pending (pending_routes d))
             @ map (guide_call u) (filter is_pending (pending_guides d))"
proof -
  let ?pr = "filter is_pending (pending_routes d)"
  let ?pg = "filter is_pending (pending_guides d)"
  let ?s0 = "toast (SyncStarted (length ?pr + length ?pg)) s"
  have d0: "db ?s0 = Some d" using assms(1) by (simp add: toast_def)
  let ?d1 = "d\<lparr>pending_routes :=
              map (\<lambda>y. if localId y \<in> localId ` set ?pr then route_result e y else y)
                (pending_routes d)\<rparr>"
  let ?s1 = "?s0\<lparr>db := Some ?d1, remote_log := remote_log ?s0 @ map (route_call u) ?pr\<rparr>"
  let ?c1 = "tally (uploadRoute e) ?pr (0, 0)"
  have r: "for_each (sync_route e u) ?pr (0, 0) ?s0 = (Inr ?c1, ?s1)"
    by (rule for_each_sync_route[OF d0 assms(2)]) (auto simp: distinct_map_filter assms(2))
  have d1: "db ?s1 = Some ?d1" by simp
  let ?d2 = "?d1\<lparr>pending_guides :=
              map (\<lambda>y. if localId y \<in> localId ` set ?pg then guide_result e y else y)
                (pending_guides ?d1)\<rparr>"
  let ?s2 = "?s1\<lparr>db := Some ?d2, remote_log := remote_log ?s1 @ map (guide_call u) ?pg\<rparr>"
  let ?c2 = "tally (uploadGuide e) ?pg ?c1"
  have g: "for_each (sync_guide e u) ?pg ?c1 ?s1 = (Inr ?c2, ?s2)"
    by (rule for_each_sync_guide[OF d1]) (auto simp: distinct_map_filter assms(3))
  have tot: "length ?pr + length ?pg \<noteq> 0" using assms(4) by auto
  have run: "sync_pass e u s = (Inr (Synced (fst ?c2) (snd ?c2)), processEmailQueue e (show_results ?c2 ?s2))"
    using assms(1) tot
    by (simp only: sync_pass_def getPendingRoutes_def getPendingGuides_def Let_def
        option.case and_then_Inr r g if_False)
  have "routes_of ?s2 =
      map (\<lambda>y. if localId y \<in> localId ` set ?pr then route_result e y else y) (pending_routes d)"
    by (simp add: routes_of_def del: set_filter)
  then have a: "routes_of ?s2 = map (\<lambda>y. if is_pending y then route_result e y else y) (pending_routes d)"
    by (simp only: update_pending[OF assms(2)])
  have "guides_of ?s2 =
      map (\<lambda>y. if localId y \<in> localId ` set ?pg then guide_result e y else y) (pending_guides d)"
    by (simp add: guides_of_def del: set_filter)
  then have b: "guides_of ?s2 = map (\<lambda>y. if is_pending y then guide_result e y else y) (pending_guides d)"
    by (simp only: update_pending[OF assms(3)])
  have c: "remote_log ?s2 = remote_log s @ map (route_call u) ?pr @ map (guide_call u) ?pg"
    by (simp add: toast_def)
  show ?thesis
    using run a b c by blast
qed

lemma show_results_same: "same_artifacts s (show_results cnt s)"
  by (simp add: show_results_def same_artifacts_def Let_def)

lemma flag_same [simp]:
  "routes_of (s\<lparr>syncInProgress := b\<rparr>) = routes_of s"
  "guides_of (s\<lparr>syncInProgress := b\<rparr>) = guides_of s"
  by (simp_all add: routes_of_def guides_of_def)


text \<open>The loop of the email drain on a list of entries of the queue: each entry under the
  retry cap is sent and marked, or its retry counted. These lemmas are about the loop
  alone; \<open>processEmailQueue\<close> never reaches it (\<open>processEmailQueue_inert\<close>).\<close>

lemma mark_sent_present:
  assumes "distinct (map email_item.id' xs)" "x \<in> set xs"
  shows "mark_sent (email_item.id' x) t xs =
     map (\<lambda>y. if email_item.id' y = email_item.id' x
               then x\<lparr>sent := True, sentAt := Some t\<rparr> else y) xs"
  using store_get_distinct[OF assms] store_put_replace[OF assms]
  by (simp add: mark_sent_def)

lemma bump_email_retry_present:
  assumes "distinct (map email_item.id' xs)" "x \<in> set xs"
  shows "bump_email_retry (email_item.id' x) xs =
     map (\<lambda>y. if email_item.id' y = email_item.id' x
               then x\<lparr>email_item.retryCount := email_item.retryCount x + 1\<rparr> else y) xs"
  using store_get_distinct[OF assms] store_put_replace[OF assms]
  by (simp add: bump_email_retry_def)

lemma email_result_key [simp]: "email_item.id' (email_result e y) = email_item.id' y"
  by (simp add: email_result_def split: sum.splits)

lemma map_same_key:
  assumes "distinct (map key xs)" "x \<in> set xs"
  shows "map (\<lambda>y. if key y = key x then x else y) xs = xs"
proof (rule map_idI)
  fix y assume "y \<in> set xs"
  then show "(if key y = key x then x else y) = y"
    using key_eq_in_distinct[OF assms, of y] by auto
qed

lemma drain_email_step:
  assumes "db s = Some d" "distinct (map email_item.id' (email_queue d))"
    "x \<in> set (email_queue d)"
  shows "drain_email e x () s =
    (Inr (),
     s\<lparr>db := Some (d\<lparr>email_queue :=
              map (\<lambda>y. if email_item.id' y = email_item.id' x then email_result e y else y)
                (email_queue d)\<rparr>),
       relay_log := relay_log s @ relay_calls e [x]\<rparr>)"
proof -
  have r: "map (\<lambda>y. if email_item.id' y = email_item.id' x then email_result e x else y) (email_queue d)
      = map (\<lambda>y. if email_item.id' y = email_item.id' x then email_result e y else y) (email_queue d)"
    by (rule replace_by_key[OF assms(2,3)])
  have "drain_email e x () s =
    (Inr (),
     s\<lparr>db := Some (d\<lparr>email_queue :=
              map (\<lambda>y. if email_item.id' y = email_item.id' x then email_result e x else y)
                (email_queue d)\<rparr>),
       relay_log := relay_log s @ relay_calls e [x]\<rparr>)"
  proof (cases "3 \<le> email_item.retryCount x")
    case True
    then have er: "email_result e x = x" by (simp add: email_result_def)
    from True show ?thesis
      using assms(1)
      by (simp add: drain_email_def er relay_calls_def same_db
          map_same_key[OF assms(2,3)] cong: if_cong)
  next
    case False
    show ?thesis
    proof (cases "configured (emailjsConfig e)")
      case False
      with \<open>\<not> 3 \<le> email_item.retryCount x\<close> show ?thesis
        using assms(1) mark_sent_present[OF assms(2,3)]
        by (simp add: drain_email_def email_result_def relay_calls_def sendEmailBackup_def
            markEmailSent_def)
    next
      case True
      with \<open>\<not> 3 \<le> email_item.retryCount x\<close> show ?thesis
        using assms(1) mark_sent_present[OF assms(2,3)] bump_email_retry_present[OF assms(2,3)]
        by (cases "emailjsSend e x")
           (simp_all add: drain_email_def email_result_def relay_calls_def sendEmailBackup_def
            markEmailSent_def incrementEmailRetry_def)
    qed
  qed
  then show ?thesis by (simp only: r)
qed

lemma relay_calls_Cons: "relay_calls e [x] @ relay_calls e xs = relay_calls e (x # xs)"
  by (simp add: relay_calls_def)

lemma for_each_drain_email:
  assumes "db s = Some d" "distinct (map email_item.id' (email_queue d))"
    "set xs \<subseteq> set (email_queue d)" "distinct (map email_item.id' xs)"
  shows "for_each (drain_email e) xs () s =
    (Inr (),
     s\<lparr>db := Some (d\<lparr>email_queue :=
              map (\<lambda>y. if email_item.id' y \<in> email_item.id' ` set xs then email_result e y else y)
                (email_queue d)\<rparr>),
       relay_log := relay_log s @ relay_calls e xs\<rparr>)"
  using assms
proof (induction xs arbitrary: s d)
  case Nil
  then show ?case by (simp add: relay_calls_def same_db)
next
  case (Cons x xs)
  let ?ys = "map (\<lambda>y. if email_item.id' y = email_item.id' x then email_result e y else y) (email_queue d)"
  let ?d1 = "d\<lparr>email_queue := ?ys\<rparr>"
  let ?s1 = "s\<lparr>db := Some ?d1, relay_log := relay_log s @ relay_calls e [x]\<rparr>"
  have x: "x \<in> set (email_queue d)" using Cons.prems(3) by simp
  have step: "drain_email e x () s = (Inr (), ?s1)"
    by (rule drain_email_step[OF Cons.prems(1,2) x])
  have d1: "db ?s1 = Some ?d1" by simp
  have dist: "distinct (map email_item.id' (email_queue ?d1))"
    using Cons.prems(2)
    by (simp add: map_keys_update[where key=email_item.id' and f="email_result e"] del: map_map)
  have sub: "set xs \<subseteq> set (email_queue ?d1)"
    using rest_still_stored[OF Cons.prems(3,4), of "email_result e"] by simp
  have dxs: "distinct (map email_item.id' xs)" using Cons.prems(4) by simp
  have fresh: "email_item.id' x \<notin> email_item.id' ` set xs" using Cons.prems(4) by simp
  have "for_each (drain_email e) (x # xs) () s = for_each (drain_email e) xs () ?s1"
    by (simp add: step)
  also have "\<dots> = (Inr (),
     ?s1\<lparr>db := Some (?d1\<lparr>email_queue :=
              map (\<lambda>y. if email_item.id' y \<in> email_item.id' ` set xs then email_result e y else y)
                (email_queue ?d1)\<rparr>),
       relay_log := relay_log ?s1 @ relay_calls e xs\<rparr>)"
    by (rule Cons.IH[OF d1 dist sub dxs])
  also have "\<dots> = (Inr (),
     s\<lparr>db := Some (d\<lparr>email_queue :=
              map (\<lambda>y. if email_item.id' y \<in> email_item.id' ` set (x # xs) then email_result e y else y)
                (email_queue d)\<rparr>),
       relay_log := relay_log s @ relay_calls e (x # xs)\<rparr>)"
    using map_update_compose[where key=email_item.id' and f="email_result e" and x=x and xs=xs
        and ys="email_queue d", OF _ fresh]
    by (simp add: relay_calls_Cons del: map_map)
  finally show ?case .
qed

lemma relay_calls_keys: "fst ` set (relay_calls e xs) \<subseteq> email_item.id' ` set xs"
  by (auto simp: relay_calls_def)

lemma filter_none: "k \<notin> fst ` set cs \<Longrightarrow> filter (\<lambda>c. fst c = k) cs = []"
  by (auto simp: filter_empty_conv)

lemma untouched_refl [simp]: "untouched s s" by (simp add: untouched_def)
lemma untouched_trans: "untouched a b \<Longrightarrow> untouched b c \<Longrightarrow> untouched a c"
  by (simp add: untouched_def)

lemma drain_email_untouched: "untouched s (snd (drain_email e item acc s))"
  by (auto simp: untouched_def drain_email_def sendEmailBackup_def markEmailSent_def
      incrementEmailRetry_def and_then_def split: option.splits sum.splits prod.splits)

lemma processEmailQueue_untouched: "untouched s (processEmailQueue e s)"
  unfolding processEmailQueue_def
  by (auto simp: Let_def split: option.splits sum.splits
      intro!: for_each_pres[where P=untouched] drain_email_untouched intro: untouched_trans)

lemma sync_route_untouched: "untouched s (snd (sync_route e u x cnt s))"
  by (auto simp: untouched_def sync_route_def uploadRouteToCloud_def markRouteUploaded_def
      incrementRetryCount_def and_then_def split: option.splits sum.splits prod.splits store_name.splits)

lemma sync_guide_untouched: "untouched s (snd (sync_guide e u x cnt s))"
  by (auto simp: untouched_def sync_guide_def uploadGuideToCloud_def markGuideUploaded_def
      incrementRetryCount_def and_then_def split: option.splits sum.splits prod.splits store_name.splits)

lemma for_each_untouched:
  "(\<And>x acc s. untouched s (snd (body x acc s))) \<Longrightarrow> for_each body xs acc s = (r, s') \<Longrightarrow> untouched s s'"
  using for_each_pres[where P=untouched and body=body and xs=xs and acc=acc and s=s]
  by (auto intro: untouched_trans)





lemma untouched_calm: "untouched s s' \<Longrightarrow> calm s s'"
  by (simp add: untouched_def calm_def)

lemma sync_pass_calm: "calm s (snd (sync_pass e u s))"
proof (cases "db s")
  case None
  then show ?thesis by (simp add: sync_pass_def getPendingRoutes_def calm_def)
next
  case (Some d)
  let ?pr = "filter is_pending (pending_routes d)"
  let ?pg = "filter is_pending (pending_guides d)"
  let ?s0 = "toast (SyncStarted (length ?pr + length ?pg)) s"
  obtain r1 s1 where r: "for_each (sync_route e u) ?pr (0, 0) ?s0 = (r1, s1)" by force
  have u1: "untouched ?s0 s1" by (rule for_each_untouched[OF sync_route_untouched r])
  have u0: "untouched s ?s0" by (simp add: untouched_def toast_def)
  show ?thesis
  proof (cases "length ?pr + length ?pg = 0")
    case True
    with Some show ?thesis
      by (simp add: sync_pass_def getPendingRoutes_def getPendingGuides_def calm_def)
  next
    case False
    show ?thesis
    proof (cases r1)
      case (Inl err)
      with Some False r u0 u1 show ?thesis
        by (simp add: sync_pass_def getPendingRoutes_def getPendingGuides_def Let_def
            untouched_def calm_def)
    next
      case (Inr c1)
      obtain r2 s2 where g: "for_each (sync_guide e u) ?pg c1 s1 = (r2, s2)" by force
      have u2: "untouched s1 s2" by (rule for_each_untouched[OF sync_guide_untouched g])
      have u3: "untouched s2 (processEmailQueue e (show_results c s2))" for c
        using processEmailQueue_untouched[of "show_results c s2" e]
        by (simp add: untouched_def show_results_def toast_def Let_def)
      show ?thesis
        using Some False r Inr g u0 u1 u2 u3
        by (cases r2)
           (simp_all add: sync_pass_def getPendingRoutes_def getPendingGuides_def Let_def
            untouched_def calm_def)
    qed
  qed
qed

lemma syncAllPending_calm: "calm s (snd (syncAllPending e s))"
proof (cases "currentUser e")
  case None
  then show ?thesis by (simp add: syncAllPending_def calm_def toast_def)
next
  case (Some u)
  obtain r s1 where sp: "sync_pass e u (s\<lparr>syncInProgress := True\<rparr>) = (r, s1)" by force
  have "calm (s\<lparr>syncInProgress := True\<rparr>) s1"
    using sync_pass_calm[of "s\<lparr>syncInProgress := True\<rparr>" e u] sp by simp
  with Some sp show ?thesis
    by (cases r) (simp_all add: syncAllPending_def calm_def toast_def)
qed

lemma syncAllPending_flag: "syncInProgress (snd (syncAllPending e s)) = syncInProgress s"
  by (simp add: syncAllPending_def toast_def split: option.splits prod.splits sum.splits)

lemma untouched_flag: "untouched s s' \<Longrightarrow> syncInProgress s' = syncInProgress s"
  by (simp add: untouched_def)

subsection \<open>The poll and the handler\<close>

text \<open>When the poll finds the flag offline and the platform online, and something is
  pending, it shows the notice, runs a pass of \<open>syncAllPending\<close> at once and then the
  email drain, and sets no timer; the \<^verbatim>\<open>online\<close> handler, in the same state, shows the
  notice, sets the timer of 3000 ms for the pass and runs the email drain.\<close>

lemma pollConnectivity_syncs_at_once:
  assumes "\<not> isOnline s" and "navigatorOnLine e" and "0 < getPendingCount s"
  shows "pollConnectivity e s =
           processEmailQueue e
             (snd (syncAllPending e
                (showPendingNotification (getPendingCount s) (s\<lparr>isOnline := True\<rparr>))))
       \<and> timers (pollConnectivity e s) = timers s
       \<and> onOnline e s =
           processEmailQueue e
             ((showPendingNotification (getPendingCount s) (s\<lparr>isOnline := True\<rparr>))
                \<lparr>timers := timers s @ [(3000, AutoSync)]\<rparr>)"
proof -
  let ?n = "getPendingCount s"
  let ?s1 = "s\<lparr>isOnline := True\<rparr>"
  let ?s3 = "showPendingNotification ?n ?s1"
  have n: "getPendingCount ?s1 = ?n"
    by (simp add: getPendingCount_def getPendingRoutes_def getPendingGuides_def
        split: option.splits)
  have t3: "timers ?s3 = timers s"
    using assms(3) by (simp add: showPendingNotification_def)
  have poll: "pollConnectivity e s = processEmailQueue e (snd (syncAllPending e ?s3))"
    using assms by (simp add: pollConnectivity_def Let_def n)
  have "calm ?s3 (snd (syncAllPending e ?s3))" by (rule syncAllPending_calm)
  moreover have "untouched (snd (syncAllPending e ?s3)) (processEmailQueue e (snd (syncAllPending e ?s3)))"
    by (rule processEmailQueue_untouched)
  ultimately have "timers (processEmailQueue e (snd (syncAllPending e ?s3))) = timers s"
    using t3 by (simp add: calm_def untouched_def)
  with poll have tm: "timers (pollConnectivity e s) = timers s" by simp
  have push: "onOnline e s = processEmailQueue e (?s3\<lparr>timers := timers s @ [(3000, AutoSync)]\<rparr>)"
    using assms(3) by (simp add: onOnline_def Let_def n t3)
  from poll tm push show ?thesis by blast
qed

subsection \<open>Turns of an invocation\<close>

text \<open>No turn leads back to \<open>NotInvoked\<close>, a turn only adds to the log of remote calls, and
  whoever is running holds the flag alone.\<close>

lemma step_not_fresh: "fst (sync_step e pc s) \<noteq> NotInvoked"
proof (cases pc)
  case (LoopHead u items a b)
  show ?thesis
  proof (cases items)
    case Nil
    with LoopHead show ?thesis by simp
  next
    case (Cons x xs)
    with LoopHead show ?thesis
      by (cases x) (auto split: prod.splits sum.splits)
  qed
qed (auto simp: sync_failed_def Let_def split: prod.splits sum.splits option.splits)

lemma step_log: "\<exists>ws. remote_log (snd (sync_step e pc s)) = remote_log s @ ws"
proof (cases pc)
  case (LoopHead u items a b)
  show ?thesis
  proof (cases items)
    case Nil
    have "same_artifacts s (processEmailQueue e (show_results (a, b) s))"
      using show_results_same processEmailQueue_same same_artifacts_trans by blast
    with LoopHead Nil show ?thesis by (simp add: same_artifacts_def)
  next
    case (Cons x xs)
    with LoopHead show ?thesis
      by (cases x)
         (auto simp: uploadRouteToCloud_def uploadGuideToCloud_def
          split: store_name.splits sum.splits)
  qed
qed (auto simp: sync_failed_def toast_def getPendingRoutes_def getPendingGuides_def
      markRouteUploaded_def markGuideUploaded_def incrementRetryCount_def Let_def
      split: option.splits store_name.splits)

lemma step_running_flag:
  assumes "running pc" "syncInProgress s" "sync_step e pc s = (pc', s')"
  shows "syncInProgress s' = running pc' \<and> pc' \<noteq> NotInvoked"
proof (cases pc)
  case (LoopHead u items a b)
  show ?thesis
  proof (cases items)
    case Nil
    with LoopHead assms show ?thesis
      using untouched_flag[OF processEmailQueue_untouched, of e "show_results (a, b) s"]
      by (auto simp: running_def show_results_def toast_def Let_def)
  next
    case (Cons x xs)
    with LoopHead assms show ?thesis
      by (cases x)
         (auto simp: running_def uploadRouteToCloud_def uploadGuideToCloud_def
          split: store_name.splits sum.splits)
  qed
qed (use assms in \<open>auto simp: running_def sync_failed_def toast_def getPendingRoutes_def
      getPendingGuides_def markRouteUploaded_def markGuideUploaded_def incrementRetryCount_def
      Let_def split: option.splits store_name.splits if_splits\<close>)

lemma step_fresh:
  assumes "sync_step e NotInvoked s = (pc', s')"
  shows "pc' \<noteq> NotInvoked
       \<and> (syncInProgress s \<longrightarrow> pc' = Returned AlreadyInProgress \<and> s' = s)
       \<and> (\<not> syncInProgress s \<longrightarrow> syncInProgress s' = running pc')"
  using assms by (auto simp: running_def toast_def split: if_splits)

lemma advance_sole:
  assumes "sole_holder (s, a, b)" "advance e a s = (a1, s1)"
  shows "sole_holder (s1, a1, b)" "sole_holder (s1, b, a1)"
proof -
  obtain pc' where st: "sync_step e (fst a) s = (pc', s1)" and a1: "fst a1 = pc'"
    using assms(2) by (auto simp: advance_def split: prod.splits)
  have "sole_holder (s1, a1, b) \<and> sole_holder (s1, b, a1)"
  proof (cases "running (fst a)")
    case True
    then have fl: "syncInProgress s" and nb: "\<not> running (fst b)"
      using assms(1) by (auto simp: sole_holder_def)
    from step_running_flag[OF True fl st] nb a1 show ?thesis
      by (auto simp: sole_holder_def)
  next
    case False
    then consider "fst a = NotInvoked" | out where "fst a = Returned out"
      by (cases "fst a") (auto simp: running_def)
    then show ?thesis
    proof cases
      case 1
      with st have st': "sync_step e NotInvoked s = (pc', s1)" by simp
      show ?thesis
      proof (cases "syncInProgress s")
        case True
        with step_fresh[OF st'] assms(1) a1 show ?thesis
          by (auto simp: sole_holder_def running_def)
      next
        case False
        then have "\<not> running (fst b)" using assms(1) by (auto simp: sole_holder_def)
        with step_fresh[OF st'] False a1 show ?thesis
          by (auto simp: sole_holder_def)
      qed
    next
      case 2
      with st a1 assms(1) show ?thesis
        by (auto simp: sole_holder_def running_def)
    qed
  qed
  then show "sole_holder (s1, a1, b)" "sole_holder (s1, b, a1)" by simp_all
qed

lemma advance_pc: "fst (fst (advance e p s)) = fst (sync_step e (fst p) s)"
  by (simp add: advance_def split: prod.splits)

lemma advance_state: "snd (advance e p s) = snd (sync_step e (fst p) s)"
  by (simp add: advance_def split: prod.splits)

lemma sole_holder_swap: "sole_holder (s, a, b) = sole_holder (s, b, a)"
  by (auto simp: sole_holder_def)

lemma interleave_sole: "sole_holder c \<Longrightarrow> sole_holder (interleave sched c)"
proof (induction sched arbitrary: c)
  case Nil
  then show ?case by simp
next
  case (Cons x sched)
  obtain who e where x: "x = (who, e)" by (cases x)
  obtain s a b where c: "c = (s, a, b)" by (cases c)
  show ?case
  proof (cases who)
    case True
    obtain b1 s1 where adv: "advance e b s = (b1, s1)" by (metis surj_pair)
    have "sole_holder (s, b, a)" using Cons.prems c sole_holder_swap by blast
    from advance_sole(2)[OF this adv] have "sole_holder (s1, a, b1)" .
    then show ?thesis using Cons.IH x c True adv by simp
  next
    case False
    obtain a1 s1 where adv: "advance e a s = (a1, s1)" by (metis surj_pair)
    have "sole_holder (s1, a1, b)" using advance_sole(1)[OF _ adv] Cons.prems c by blast
    then show ?thesis using Cons.IH x c False adv by simp
  qed
qed

lemma interleave_append: "interleave (xs @ ys) c = interleave ys (interleave xs c)"
proof (induction xs arbitrary: c)
  case Nil
  then show ?case by simp
next
  case (Cons x xs)
  obtain who e where x: "x = (who, e)" by (cases x)
  obtain s a b where c: "c = (s, a, b)" by (cases c)
  show ?case using Cons.IH x c by (simp split: prod.splits)
qed

lemma interleave_Cons: "interleave (x # xs) c = interleave xs (interleave [x] c)"
  using interleave_append[of "[x]" xs c] by simp

text \<open>One turn, read off the configuration.\<close>

lemma turn:
  "fst (interleave [(w, e)] c) = snd (advance e (invocation_of w c) (fst c))"
  "invocation_of w (interleave [(w, e)] c) = fst (advance e (invocation_of w c) (fst c))"
  "invocation_of (\<not> w) (interleave [(w, e)] c) = invocation_of (\<not> w) c"
  by (cases c; cases w; simp add: invocation_of_def split: prod.splits)+

lemma turn_other: "w \<noteq> who \<Longrightarrow> invocation_of who (interleave [(w, e)] c) = invocation_of who c"
  using turn(3)[of w e c] by (cases w; cases who) simp_all

lemma returned_turn:
  assumes "fst (invocation_of w c) = Returned out"
  shows "interleave [(w, e)] c = c"
  using assms by (cases c; cases w) (auto simp: invocation_of_def advance_def)

lemma never_fresh_again:
  "fst (invocation_of who c) \<noteq> NotInvoked \<Longrightarrow>
   fst (invocation_of who (interleave sched c)) \<noteq> NotInvoked"
proof (induction sched arbitrary: c)
  case Nil
  then show ?case by simp
next
  case (Cons x sched)
  obtain w e where x: "x = (w, e)" by (cases x)
  have "fst (invocation_of who (interleave [(w, e)] c)) \<noteq> NotInvoked"
  proof (cases "w = who")
    case True
    then show ?thesis
      using step_not_fresh[of e "fst (invocation_of who c)" "fst c"]
      by (simp add: turn(2) advance_pc)
  next
    case False
    then show ?thesis using Cons.prems by (simp add: turn_other)
  qed
  from Cons.IH[OF this] show ?case by (simp add: x interleave_Cons[of "(w, e)" sched])
qed

lemma fresh_had_no_turn:
  assumes "fst (invocation_of who (interleave sched c)) = NotInvoked"
  shows "\<forall>x \<in> set sched. fst x \<noteq> who"
  using assms
proof (induction sched arbitrary: c)
  case Nil
  then show ?case by simp
next
  case (Cons x sched)
  obtain w e where x: "x = (w, e)" by (cases x)
  have later: "fst (invocation_of who (interleave sched (interleave [(w, e)] c))) = NotInvoked"
    using Cons.prems by (simp add: x interleave_Cons[of "(w, e)" sched])
  have "w \<noteq> who"
  proof
    assume "w = who"
    then have "fst (invocation_of who (interleave [(w, e)] c)) \<noteq> NotInvoked"
      using step_not_fresh[of e "fst (invocation_of who c)" "fst c"]
      by (simp add: turn(2) advance_pc)
    from never_fresh_again[OF this] later show False by blast
  qed
  with Cons.IH[OF later] show ?case by (simp add: x)
qed

subsection \<open>A pass that nothing disturbs\<close>

text \<open>While the other invocation has no turn, or has returned, the remote calls on the log
  are those of the pass, and the pass stands where it would stand alone.\<close>

lemma advance_writes:
  assumes "remote_log s = l0 @ snd p"
  shows "remote_log (snd (advance e p s)) = l0 @ snd (fst (advance e p s))"
proof -
  obtain pc s1 where st: "sync_step e (fst p) s = (pc, s1)" by (metis surj_pair)
  obtain ws where ws: "remote_log s1 = remote_log s @ ws"
    using step_log[of e "fst p" s] st by auto
  show ?thesis using assms st ws by (simp add: advance_def)
qed

lemma run_add: "run e (m + n) pc s = (case run e m pc s of (pc1, s1) \<Rightarrow> run e n pc1 s1)"
  by (induction m arbitrary: pc s) (auto split: prod.splits)

lemma run_returned [simp]: "run e n (Returned out) s = (Returned out, s)"
  by (induction n) auto

lemma run_one_more:
  "run e n pc0 s0 = (pc, s) \<Longrightarrow> run e (Suc n) pc0 s0 = sync_step e pc s"
  using run_add[of e n "Suc 0" pc0 s0] by (simp split: prod.splits)

lemma other_alone:
  assumes "(\<exists>out. fst (invocation_of who c) = Returned out) \<or> (\<forall>x \<in> set sched. fst x \<noteq> who)"
    and "remote_log (fst c) = l0 @ snd (invocation_of (\<not> who) c)"
  shows "invocation_of who (interleave sched c) = invocation_of who c
       \<and> remote_log (fst (interleave sched c)) = l0 @ snd (invocation_of (\<not> who) (interleave sched c))"
  using assms
proof (induction sched arbitrary: c)
  case Nil
  then show ?case by simp
next
  case (Cons x sched)
  obtain w e where x: "x = (w, e)" by (cases x)
  let ?c1 = "interleave [(w, e)] c"
  have step: "invocation_of who ?c1 = invocation_of who c
      \<and> remote_log (fst ?c1) = l0 @ snd (invocation_of (\<not> who) ?c1)"
  proof (cases "w = who")
    case True
    then obtain out where "fst (invocation_of w c) = Returned out"
      using Cons.prems(1) x by auto
    then have "?c1 = c" by (rule returned_turn)
    then show ?thesis using Cons.prems(2) by simp
  next
    case False
    then have w: "w = (\<not> who)" by auto
    have "remote_log (fst ?c1) = l0 @ snd (invocation_of w ?c1)"
      unfolding turn(1,2) by (rule advance_writes) (use Cons.prems(2) w in simp)
    then show ?thesis using False w by (simp add: turn_other)
  qed
  have cond: "(\<exists>out. fst (invocation_of who ?c1) = Returned out) \<or> (\<forall>x \<in> set sched. fst x \<noteq> who)"
    using Cons.prems(1) step by auto
  from Cons.IH[OF cond conjunct2[OF step]] step show ?case
    by (simp add: x interleave_Cons[of "(w, e)" sched])
qed

lemma other_alone_run:
  assumes "(\<exists>out. fst (invocation_of who c) = Returned out) \<or> (\<forall>x \<in> set sched. fst x \<noteq> who)"
    and "\<forall>x \<in> set sched. fst x \<noteq> who \<longrightarrow> snd x = e"
    and "(fst (invocation_of (\<not> who) c), fst c) = run e n pc0 s0"
  shows "\<exists>m. (fst (invocation_of (\<not> who) (interleave sched c)), fst (interleave sched c)) = run e m pc0 s0"
  using assms
proof (induction sched arbitrary: c n)
  case Nil
  then show ?case by auto
next
  case (Cons x sched)
  obtain w e' where x: "x = (w, e')" by (cases x)
  let ?c1 = "interleave [(w, e')] c"
  have step: "invocation_of who ?c1 = invocation_of who c
      \<and> (\<exists>m. (fst (invocation_of (\<not> who) ?c1), fst ?c1) = run e m pc0 s0)"
  proof (cases "w = who")
    case True
    then obtain out where "fst (invocation_of w c) = Returned out"
      using Cons.prems(1) x by auto
    then have "?c1 = c" by (rule returned_turn)
    then show ?thesis using Cons.prems(3) by auto
  next
    case False
    then have w: "w = (\<not> who)" by auto
    have e': "e' = e" using Cons.prems(2) x False by simp
    have before: "run e n pc0 s0 = (fst (invocation_of w c), fst c)"
      using Cons.prems(3) w by simp
    have "(fst (invocation_of w ?c1), fst ?c1) = sync_step e (fst (invocation_of w c)) (fst c)"
      by (simp add: turn(1,2) advance_pc advance_state e')
    also have "\<dots> = run e (Suc n) pc0 s0"
      by (rule run_one_more[OF before, symmetric])
    finally have "\<exists>m. (fst (invocation_of (\<not> who) ?c1), fst ?c1) = run e m pc0 s0"
      unfolding w by (rule exI)
    moreover have "invocation_of who ?c1 = invocation_of who c"
      using False by (simp add: turn_other)
    ultimately show ?thesis by blast
  qed
  then obtain m where m: "(fst (invocation_of (\<not> who) ?c1), fst ?c1) = run e m pc0 s0" by blast
  have cond: "(\<exists>out. fst (invocation_of who ?c1) = Returned out) \<or> (\<forall>x \<in> set sched. fst x \<noteq> who)"
    using Cons.prems(1) step by auto
  have envs: "\<forall>x \<in> set sched. fst x \<noteq> who \<longrightarrow> snd x = e" using Cons.prems(2) by simp
  from Cons.IH[OF cond envs m] show ?case
    by (simp add: x interleave_Cons[of "(w, e')" sched])
qed

subsection \<open>One invocation alone is the method\<close>

text \<open>Cutting \<^verbatim>\<open>syncAllPending\<close> at its \<^verbatim>\<open>await\<close>s loses nothing: an invocation that runs
  alone returns, with the outcome and in the state of \<open>syncAllPending\<close>.\<close>

lemma route_turns:
  "\<exists>n. run e n (LoopHead u ((PendingRoutes, r) # rest) a b) s =
     settle (sync_route e u r (a, b) s) (\<lambda>cnt. LoopHead u rest (fst cnt) (snd cnt))"
proof (cases "uploadRoute e r")
  case (Inl err)
  have "run e (Suc (Suc 0)) (LoopHead u ((PendingRoutes, r) # rest) a b) s =
     settle (sync_route e u r (a, b) s) (\<lambda>cnt. LoopHead u rest (fst cnt) (snd cnt))"
    using Inl
    by (auto simp: settle_def sync_failed_def sync_route_def uploadRouteToCloud_def
        incrementRetryCount_def and_then_def split: option.splits sum.splits prod.splits)
  then show ?thesis by blast
next
  case (Inr cid)
  show ?thesis
  proof (cases "db s")
    case None
    have "run e (Suc (Suc (Suc 0))) (LoopHead u ((PendingRoutes, r) # rest) a b) s =
       settle (sync_route e u r (a, b) s) (\<lambda>cnt. LoopHead u rest (fst cnt) (snd cnt))"
      using Inr None
      by (auto simp: settle_def sync_failed_def sync_route_def uploadRouteToCloud_def
          markRouteUploaded_def incrementRetryCount_def and_then_def
          split: option.splits sum.splits prod.splits)
    then show ?thesis by blast
  next
    case (Some d)
    have "run e (Suc (Suc 0)) (LoopHead u ((PendingRoutes, r) # rest) a b) s =
       settle (sync_route e u r (a, b) s) (\<lambda>cnt. LoopHead u rest (fst cnt) (snd cnt))"
      using Inr Some
      by (auto simp: settle_def sync_failed_def sync_route_def uploadRouteToCloud_def
          markRouteUploaded_def incrementRetryCount_def and_then_def
          split: option.splits sum.splits prod.splits)
    then show ?thesis by blast
  qed
qed

lemma guide_turns:
  "\<exists>n. run e n (LoopHead u ((PendingGuides, r) # rest) a b) s =
     settle (sync_guide e u r (a, b) s) (\<lambda>cnt. LoopHead u rest (fst cnt) (snd cnt))"
proof (cases "uploadGuide e r")
  case (Inl err)
  have "run e (Suc (Suc 0)) (LoopHead u ((PendingGuides, r) # rest) a b) s =
     settle (sync_guide e u r (a, b) s) (\<lambda>cnt. LoopHead u rest (fst cnt) (snd cnt))"
    using Inl
    by (auto simp: settle_def sync_failed_def sync_guide_def uploadGuideToCloud_def
        incrementRetryCount_def and_then_def split: option.splits sum.splits prod.splits)
  then show ?thesis by blast
next
  case (Inr cid)
  show ?thesis
  proof (cases "db s")
    case None
    have "run e (Suc (Suc (Suc 0))) (LoopHead u ((PendingGuides, r) # rest) a b) s =
       settle (sync_guide e u r (a, b) s) (\<lambda>cnt. LoopHead u rest (fst cnt) (snd cnt))"
      using Inr None
      by (auto simp: settle_def sync_failed_def sync_guide_def uploadGuideToCloud_def
          markGuideUploaded_def incrementRetryCount_def and_then_def
          split: option.splits sum.splits prod.splits)
    then show ?thesis by blast
  next
    case (Some d)
    have "run e (Suc (Suc 0)) (LoopHead u ((PendingGuides, r) # rest) a b) s =
       settle (sync_guide e u r (a, b) s) (\<lambda>cnt. LoopHead u rest (fst cnt) (snd cnt))"
      using Inr Some
      by (auto simp: settle_def sync_failed_def sync_guide_def uploadGuideToCloud_def
          markGuideUploaded_def incrementRetryCount_def and_then_def
          split: option.splits sum.splits prod.splits)
    then show ?thesis by blast
  qed
qed

lemma loop_turns:
  assumes one: "\<And>r rest a b s. \<exists>n. run e n (LoopHead u ((nm, r) # rest) a b) s =
     settle (body r (a, b) s) (\<lambda>cnt. LoopHead u rest (fst cnt) (snd cnt))"
  shows "\<exists>n. run e n (LoopHead u (map (Pair nm) rs @ rest) a b) s =
     settle (for_each body rs (a, b) s) (\<lambda>cnt. LoopHead u rest (fst cnt) (snd cnt))"
proof (induction rs arbitrary: a b s)
  case Nil
  have "run e 0 (LoopHead u (map (Pair nm) [] @ rest) a b) s =
     settle (for_each body [] (a, b) s) (\<lambda>cnt. LoopHead u rest (fst cnt) (snd cnt))"
    by (simp add: settle_def sync_failed_def)
  then show ?case by blast
next
  case (Cons r rs)
  obtain m where m: "run e m (LoopHead u ((nm, r) # map (Pair nm) rs @ rest) a b) s =
     settle (body r (a, b) s) (\<lambda>cnt. LoopHead u (map (Pair nm) rs @ rest) (fst cnt) (snd cnt))"
    using one by blast
  obtain res s1 where b: "body r (a, b) s = (res, s1)" by (metis surj_pair)
  show ?case
  proof (cases res)
    case (Inl err)
    with b m have "run e (m + 0) (LoopHead u (map (Pair nm) (r # rs) @ rest) a b) s =
       settle (for_each body (r # rs) (a, b) s) (\<lambda>cnt. LoopHead u rest (fst cnt) (snd cnt))"
      by (simp add: settle_def sync_failed_def)
    then show ?thesis by blast
  next
    case (Inr cnt)
    obtain n where n: "run e n (LoopHead u (map (Pair nm) rs @ rest) (fst cnt) (snd cnt)) s1 =
       settle (for_each body rs (fst cnt, snd cnt) s1) (\<lambda>cnt. LoopHead u rest (fst cnt) (snd cnt))"
      using Cons.IH by blast
    have "run e (m + n) (LoopHead u (map (Pair nm) (r # rs) @ rest) a b) s =
       settle (for_each body (r # rs) (a, b) s) (\<lambda>cnt. LoopHead u rest (fst cnt) (snd cnt))"
      using m n b Inr by (simp add: run_add settle_def sync_failed_def)
    then show ?thesis by blast
  qed
qed


lemma solo_run:
  "\<exists>n. run e n NotInvoked s = (Returned (fst (syncAllPending e s)), snd (syncAllPending e s))"
proof -
  consider (busy) "syncInProgress s" | (off) "\<not> syncInProgress s" "\<not> isOnline s"
    | (anon) "\<not> syncInProgress s" "isOnline s" "currentUser e = None"
    | (closed) u where "\<not> syncInProgress s" "isOnline s" "currentUser e = Some u" "db s = None"
    | (go) u d where "\<not> syncInProgress s" "isOnline s" "currentUser e = Some u" "db s = Some d"
    by (cases "currentUser e"; cases "db s") auto
  then show ?thesis
  proof cases
    case busy
    then have "run e (Suc 0) NotInvoked s = (Returned (fst (syncAllPending e s)), snd (syncAllPending e s))"
      by (simp add: syncAllPending_def)
    then show ?thesis by blast
  next
    case off
    then have "run e (Suc 0) NotInvoked s = (Returned (fst (syncAllPending e s)), snd (syncAllPending e s))"
      by (simp add: syncAllPending_def)
    then show ?thesis by blast
  next
    case anon
    then have "run e (Suc (Suc 0)) NotInvoked s = (Returned (fst (syncAllPending e s)), snd (syncAllPending e s))"
      by (simp add: syncAllPending_def)
    then show ?thesis by blast
  next
    case closed
    then have "run e (Suc (Suc (Suc 0))) NotInvoked s = (Returned (fst (syncAllPending e s)), snd (syncAllPending e s))"
      by (simp add: syncAllPending_def sync_pass_def getPendingRoutes_def sync_failed_def)
    then show ?thesis by blast
  next
    case go
    define s0 where "s0 = s\<lparr>syncInProgress := True\<rparr>"
    define rs where "rs = filter is_pending (pending_routes d)"
    define gs where "gs = filter is_pending (pending_guides d)"
    have db0: "db s0 = Some d" using go by (simp add: s0_def)
    show ?thesis
    proof (cases "length rs + length gs = 0")
      case True
      with go have "run e (Suc (Suc (Suc (Suc 0)))) NotInvoked s =
          (Returned (fst (syncAllPending e s)), snd (syncAllPending e s))"
        by (simp add: syncAllPending_def sync_pass_def getPendingRoutes_def getPendingGuides_def
            rs_def gs_def Let_def)
      then show ?thesis by blast
    next
      case False
      define s1 where "s1 = toast (SyncStarted (length rs + length gs)) s0"
      define work where "work = map (Pair PendingRoutes) rs @ map (Pair PendingGuides) gs"
      define four where "four = Suc (Suc (Suc (Suc 0)))"
      define two where "two = Suc (Suc 0)"
      have start: "run e four NotInvoked s = (LoopHead u work 0 0, s1)"
        using go False
        by (simp add: getPendingRoutes_def getPendingGuides_def rs_def gs_def Let_def s0_def
            s1_def work_def four_def)
      have finish: "run e two (LoopHead u [] a b) s' =
          (Returned (Synced a b),
           (processEmailQueue e (show_results (a, b) s'))\<lparr>syncInProgress := False\<rparr>)" for a b s'
        by (simp add: two_def)
      have pass: "sync_pass e u s0 =
          and_then (for_each (sync_route e u) rs (0, 0) s1) (\<lambda>cnt1 s3.
          and_then (for_each (sync_guide e u) gs cnt1 s3) (\<lambda>cnt s4.
            (Inr (Synced (fst cnt) (snd cnt)), processEmailQueue e (show_results cnt s4))))"
        using db0 False
        by (simp add: sync_pass_def getPendingRoutes_def getPendingGuides_def rs_def gs_def
            Let_def s1_def)
      have whole: "syncAllPending e s =
          (case sync_pass e u s0 of
             (Inr out, s') \<Rightarrow> (out, s'\<lparr>syncInProgress := False\<rparr>)
           | (Inl _, s') \<Rightarrow>
               (SyncFailed, (toast (ToastError ''Sync failed'') s')\<lparr>syncInProgress := False\<rparr>))"
        using go by (simp add: syncAllPending_def s0_def)
      obtain n1 where n1: "run e n1 (LoopHead u work 0 0) s1 =
          settle (for_each (sync_route e u) rs (0, 0) s1)
            (\<lambda>cnt. LoopHead u (map (Pair PendingGuides) gs) (fst cnt) (snd cnt))"
        unfolding work_def using loop_turns[OF route_turns] by blast
      obtain res1 s2 where r1: "for_each (sync_route e u) rs (0, 0) s1 = (res1, s2)"
        by (metis surj_pair)
      show ?thesis
      proof (cases res1)
        case (Inl err)
        have "run e (four + n1) NotInvoked s =
            (Returned (fst (syncAllPending e s)), snd (syncAllPending e s))"
          unfolding whole pass run_add start using n1 r1 Inl by (simp add: settle_def sync_failed_def)
        then show ?thesis by blast
      next
        case (Inr cnt1)
        obtain n2 where n2: "run e n2 (LoopHead u (map (Pair PendingGuides) gs @ []) (fst cnt1) (snd cnt1)) s2 =
            settle (for_each (sync_guide e u) gs (fst cnt1, snd cnt1) s2)
              (\<lambda>cnt. LoopHead u [] (fst cnt) (snd cnt))"
          using loop_turns[OF guide_turns] by blast
        obtain res2 s3 where r2: "for_each (sync_guide e u) gs cnt1 s2 = (res2, s3)"
          by (metis surj_pair)
        have mid: "run e (four + n1 + n2) NotInvoked s =
            settle (res2, s3) (\<lambda>cnt. LoopHead u [] (fst cnt) (snd cnt))"
          unfolding run_add start using n1 n2 r1 r2 Inr by (simp add: settle_def sync_failed_def)
        show ?thesis
        proof (cases res2)
          case (Inl err)
          have "run e (four + n1 + n2) NotInvoked s =
              (Returned (fst (syncAllPending e s)), snd (syncAllPending e s))"
            unfolding mid whole pass using r1 r2 Inr Inl by (simp add: settle_def sync_failed_def)
          then show ?thesis by blast
        next
          case (Inr cnt)
          have "run e (four + n1 + n2 + two) NotInvoked s =
              (Returned (fst (syncAllPending e s)), snd (syncAllPending e s))"
            unfolding run_add[of e "four + n1 + n2" two] mid whole pass
            using r1 r2 \<open>res1 = Inr cnt1\<close> Inr by (simp add: settle_def sync_failed_def finish)
          then show ?thesis by blast
        qed
      qed
    qed
  qed
qed


lemma run_interleave:
  "\<exists>ws'. interleave (replicate n (False, e)) (s, (pc, ws), b) =
      (snd (run e n pc s), (fst (run e n pc s), ws'), b)"
proof (induction n arbitrary: pc s ws)
  case 0
  then show ?case by simp
next
  case (Suc n)
  obtain pc1 s1 where st: "sync_step e pc s = (pc1, s1)" by (metis surj_pair)
  from Suc[of s1 pc1 "ws @ drop (length (remote_log s)) (remote_log s1)"] st show ?case
    by (simp add: advance_def)
qed

lemma alone_is_syncAllPending:
  "\<exists>n ws. interleave (replicate n (False, e)) (both_fresh s) =
      (snd (syncAllPending e s), (Returned (fst (syncAllPending e s)), ws), (NotInvoked, []))"
proof -
  obtain n where n: "run e n NotInvoked s = (Returned (fst (syncAllPending e s)), snd (syncAllPending e s))"
    using solo_run by blast
  from run_interleave[of n e s NotInvoked "[]" "(NotInvoked, [])"] n show ?thesis
    by (auto simp: both_fresh_def)
qed

lemma run_unique:
  assumes "run e n pc s = (Returned out, s1)" "run e m pc s = (Returned out', s2)"
  shows "out = out' \<and> s1 = s2"
proof -
  have le: "out = out' \<and> s1 = s2"
    if "run e n pc s = (Returned out, s1)" "run e m pc s = (Returned out', s2)" "n \<le> m"
    for n m out out' s1 s2
  proof -
    have "run e (n + (m - n)) pc s = (Returned out, s1)"
      unfolding run_add that(1) by simp
    with that(2,3) show ?thesis by simp
  qed
  show ?thesis
  proof (cases "n \<le> m")
    case True
    from le[OF assms True] show ?thesis .
  next
    case False
    then have "m \<le> n" by simp
    from le[OF assms(2,1) this] show ?thesis by simp
  qed
qed

lemma returned_run_is_method:
  assumes "run e n NotInvoked s = (Returned out, s1)"
  shows "syncAllPending e s = (out, s1)"
proof -
  obtain m where "run e m NotInvoked s = (Returned (fst (syncAllPending e s)), snd (syncAllPending e s))"
    using solo_run by blast
  from run_unique[OF assms this] show ?thesis by (metis prod.collapse)
qed

lemma running_run:
  assumes "running (fst (run e n NotInvoked s))"
  shows "\<not> syncInProgress s \<and> isOnline s"
proof (cases n)
  case 0
  with assms show ?thesis by (simp add: running_def)
next
  case (Suc k)
  show ?thesis
  proof (rule ccontr)
    assume "\<not> (\<not> syncInProgress s \<and> isOnline s)"
    then have "\<exists>out s1. sync_step e NotInvoked s = (Returned out, s1)"
      by (cases "syncInProgress s") simp_all
    then obtain out s1 where "sync_step e NotInvoked s = (Returned out, s1)" by blast
    with assms Suc show False by (simp add: running_def)
  qed
qed

lemma for_each_sync_route_log:
  assumes "db s \<noteq> None"
  shows "\<exists>cnt1 s1. for_each (sync_route e u) xs cnt s = (Inr cnt1, s1) \<and> db s1 \<noteq> None
       \<and> remote_log s1 = remote_log s @ map (route_call u) xs"
  using assms
proof (induction xs arbitrary: cnt s)
  case Nil
  then show ?case by simp
next
  case (Cons x xs)
  obtain d where d: "db s = Some d" using Cons.prems by auto
  have "\<exists>cnt1 s1. sync_route e u x cnt s = (Inr cnt1, s1) \<and> db s1 \<noteq> None
       \<and> remote_log s1 = remote_log s @ [route_call u x]"
    using d
    by (cases "uploadRoute e x")
       (auto simp: sync_route_def uploadRouteToCloud_def markRouteUploaded_def
        incrementRetryCount_def and_then_def)
  then obtain cnt1 s1 where one: "sync_route e u x cnt s = (Inr cnt1, s1)" "db s1 \<noteq> None"
      "remote_log s1 = remote_log s @ [route_call u x]" by blast
  from Cons.IH[OF one(2), of cnt1] one show ?case by auto
qed

lemma for_each_sync_guide_log:
  assumes "db s \<noteq> None"
  shows "\<exists>cnt1 s1. for_each (sync_guide e u) xs cnt s = (Inr cnt1, s1) \<and> db s1 \<noteq> None
       \<and> remote_log s1 = remote_log s @ map (guide_call u) xs"
  using assms
proof (induction xs arbitrary: cnt s)
  case Nil
  then show ?case by simp
next
  case (Cons x xs)
  obtain d where d: "db s = Some d" using Cons.prems by auto
  have "\<exists>cnt1 s1. sync_guide e u x cnt s = (Inr cnt1, s1) \<and> db s1 \<noteq> None
       \<and> remote_log s1 = remote_log s @ [guide_call u x]"
    using d
    by (cases "uploadGuide e x")
       (auto simp: sync_guide_def uploadGuideToCloud_def markGuideUploaded_def
        incrementRetryCount_def and_then_def)
  then obtain cnt1 s1 where one: "sync_guide e u x cnt s = (Inr cnt1, s1)" "db s1 \<noteq> None"
      "remote_log s1 = remote_log s @ [guide_call u x]" by blast
  from Cons.IH[OF one(2), of cnt1] one show ?case by auto
qed

lemma syncAllPending_log:
  assumes "db s = Some d" "isOnline s" "\<not> syncInProgress s" "currentUser e = Some u"
  shows "remote_log (snd (syncAllPending e s)) =
           remote_log s @ map (route_call u) (filter is_pending (pending_routes d))
             @ map (guide_call u) (filter is_pending (pending_guides d))"
proof -
  let ?pr = "filter is_pending (pending_routes d)"
  let ?pg = "filter is_pending (pending_guides d)"
  let ?s0 = "s\<lparr>syncInProgress := True\<rparr>"
  show ?thesis
  proof (cases "length ?pr + length ?pg = 0")
    case True
    then show ?thesis
      using assms
      by (simp add: syncAllPending_def sync_pass_def getPendingRoutes_def getPendingGuides_def
          Let_def)
  next
    case False
    let ?s1 = "toast (SyncStarted (length ?pr + length ?pg)) ?s0"
    have d1: "db ?s1 \<noteq> None" using assms(1) by (simp add: toast_def)
    obtain cnt1 s2 where r: "for_each (sync_route e u) ?pr (0, 0) ?s1 = (Inr cnt1, s2)"
        "db s2 \<noteq> None" "remote_log s2 = remote_log ?s1 @ map (route_call u) ?pr"
      using for_each_sync_route_log[OF d1] by blast
    obtain cnt s3 where g: "for_each (sync_guide e u) ?pg cnt1 s2 = (Inr cnt, s3)"
        "remote_log s3 = remote_log s2 @ map (guide_call u) ?pg"
      using for_each_sync_guide_log[OF r(2)] by blast
    have pass: "sync_pass e u ?s0 =
        (Inr (Synced (fst cnt) (snd cnt)), processEmailQueue e (show_results cnt s3))"
      using assms(1) False r(1) g(1)
      by (simp add: sync_pass_def getPendingRoutes_def getPendingGuides_def Let_def)
    have "same_artifacts s3 (processEmailQueue e (show_results cnt s3))"
      using show_results_same processEmailQueue_same same_artifacts_trans by blast
    then have "remote_log (processEmailQueue e (show_results cnt s3)) = remote_log s3"
      by (simp add: same_artifacts_def)
    then show ?thesis
      using assms pass r(3) g(2) by (simp add: syncAllPending_def toast_def)
  qed
qed

section \<open>The claims\<close>

text \<open>
  C10. \<^verbatim>\<open>markRouteUploaded\<close>, \<^verbatim>\<open>markGuideUploaded\<close>, \<^verbatim>\<open>incrementRetryCount\<close>,
  \<^verbatim>\<open>markEmailSent\<close> and \<^verbatim>\<open>incrementEmailRetry\<close>, called on an open database with a key
  that no record of the store concerned has, resolve without an error and leave the whole
  state, so every record of every store, as it was.
\<close>

theorem missing_key_is_noop:
  assumes "db s = Some d"
  shows "(k \<notin> localId ` set (pending_routes d) \<longrightarrow> markRouteUploaded e k cid s = (Inr (), s))
       \<and> (k \<notin> localId ` set (pending_guides d) \<longrightarrow> markGuideUploaded e k cid s = (Inr (), s))
       \<and> (k \<notin> localId ` set (pending_routes d) \<longrightarrow>
            incrementRetryCount e PendingRoutes k s = (Inr (), s))
       \<and> (k \<notin> localId ` set (pending_guides d) \<longrightarrow>
            incrementRetryCount e PendingGuides k s = (Inr (), s))
       \<and> (k \<notin> email_item.id' ` set (email_queue d) \<longrightarrow> markEmailSent e k s = (Inr (), s))
       \<and> (k \<notin> email_item.id' ` set (email_queue d) \<longrightarrow> incrementEmailRetry k s = (Inr (), s))"
  using assms
  by (simp add: markRouteUploaded_def markGuideUploaded_def incrementRetryCount_def
      markEmailSent_def incrementEmailRetry_def mark_uploaded_absent bump_retry_absent
      mark_sent_absent bump_email_retry_absent same_db)

text \<open>The state after one route was saved offline holds route 1, guide none and mail 1;
  key 2 is in none of the stores.\<close>

theorem missing_key_is_noop_witness:
  "(let s = snd (saveRoute field_env ''Loop Trail'' None offline_start) in
      map localId (routes_of s) = [1] \<and> map email_item.id' (emails_of s) = [1]
    \<and> markRouteUploaded field_env 2 ''doc9'' s = (Inr (), s)
    \<and> markGuideUploaded field_env 2 ''doc9'' s = (Inr (), s)
    \<and> incrementRetryCount field_env PendingRoutes 2 s = (Inr (), s)
    \<and> incrementRetryCount field_env PendingGuides 2 s = (Inr (), s)
    \<and> markEmailSent field_env 2 s = (Inr (), s)
    \<and> incrementEmailRetry 2 s = (Inr (), s))"
proof -
  let ?s = "snd (saveRoute field_env ''Loop Trail'' None offline_start)"
  have st: "?s = offline_start\<lparr>db := Some (empty_database\<lparr>pending_routes :=
                 [(new_pending field_env ''Loop Trail'' None)\<lparr>localId := 1\<rparr>],
               routeKeyGen := 2,
               email_queue := [email_entry field_env ''route''
                  ((new_pending field_env ''Loop Trail'' None)\<lparr>localId := 1\<rparr>) 1],
               emailKeyGen := 2\<rparr>),
             events := [ToastSuccess ''Route saved locally'']\<rparr>" (is "_ = ?t")
    by (simp add: saveRoute_def savePendingRoute_def queueEmailBackup_def saved_locally_def
        processEmailQueue_def toast_def offline_start_def openDatabase_def constructor_def
        empty_database_def field_env_def Let_def)
  have d: "db ?t = Some (the (db ?t))" by simp
  show ?thesis
    unfolding Let_def st
    using missing_key_is_noop[OF d, of 2 field_env "''doc9''"]
    by (simp add: routes_of_def emails_of_def empty_database_def email_entry_def)
qed

text \<open>
  C4. With the database open and the object offline, \<^verbatim>\<open>saveRoute\<close> and
  \<^verbatim>\<open>saveTrailGuide\<close> succeed for every payload and every user: they return the new local id
  with \<^verbatim>\<open>cloudId: null\<close>, the store gains one record, and that record is pending, with
  retry count 0 and no cloud id. No remote operation is called, so whatever the remote
  side would answer, nothing of it reaches the caller.
\<close>

theorem save_offline_succeeds:
  assumes "db s = Some d" and "\<not> isOnline s"
  shows "fst (saveRoute e artifact usr s) = Inr (routeKeyGen d, None)
       \<and> routes_of (snd (saveRoute e artifact usr s)) =
            pending_routes d @ [(new_pending e artifact usr)\<lparr>localId := routeKeyGen d\<rparr>]
       \<and> remote_log (snd (saveRoute e artifact usr s)) = remote_log s
       \<and> fst (saveTrailGuide e artifact usr s) = Inr (guideKeyGen d, None)
       \<and> guides_of (snd (saveTrailGuide e artifact usr s)) =
            pending_guides d @ [(new_pending e artifact usr)\<lparr>localId := guideKeyGen d\<rparr>]
       \<and> remote_log (snd (saveTrailGuide e artifact usr s)) = remote_log s
       \<and> pending_item.status (new_pending e artifact usr) = Pending
       \<and> pending_item.retryCount (new_pending e artifact usr) = 0
       \<and> cloudId (new_pending e artifact usr) = None"
  using assms
  by (simp add: saveRoute_def saveTrailGuide_def Let_def savePendingRoute_def
      savePendingGuide_def queueEmailBackup_def saved_locally_def processEmailQueue_def
      toast_def routes_of_def guides_of_def new_pending_def)

theorem save_offline_succeeds_witness:
  "\<not> isOnline offline_start
   \<and> fst (saveRoute field_env ''Loop Trail'' (Some hiker) offline_start) = Inr (1, None)
   \<and> map pending_item.status
         (routes_of (snd (saveRoute field_env ''Loop Trail'' (Some hiker) offline_start))) = [Pending]
   \<and> fst (saveTrailGuide field_env ''Ridge Guide'' (Some hiker) offline_start) = Inr (1, None)
   \<and> remote_log (snd (saveTrailGuide field_env ''Ridge Guide'' (Some hiker) offline_start)) = []"
proof -
  have d: "db offline_start = Some empty_database"
    by (simp add: offline_start_def openDatabase_def)
  have off: "\<not> isOnline offline_start"
    by (simp add: offline_start_def openDatabase_def constructor_def)
  have "fst (saveRoute field_env ''Loop Trail'' (Some hiker) offline_start) = Inr (1, None)"
    and "routes_of (snd (saveRoute field_env ''Loop Trail'' (Some hiker) offline_start)) =
           [(new_pending field_env ''Loop Trail'' (Some hiker))\<lparr>localId := 1\<rparr>]"
    and "fst (saveTrailGuide field_env ''Ridge Guide'' (Some hiker) offline_start) = Inr (1, None)"
    and "remote_log (snd (saveTrailGuide field_env ''Ridge Guide'' (Some hiker) offline_start)) = []"
    using save_offline_succeeds[OF d off, of field_env "''Loop Trail''" "Some hiker"]
      save_offline_succeeds[OF d off, of field_env "''Ridge Guide''" "Some hiker"]
    by (simp_all add: empty_database_def offline_start_def openDatabase_def constructor_def)
  then show ?thesis
    using off by (simp add: new_pending_def)
qed

text \<open>
  C1. Every record of \<^verbatim>\<open>pending_routes\<close> and \<^verbatim>\<open>pending_guides\<close> is in exactly one of
  the two states, pending without a cloud id, or uploaded with a cloud id and an upload
  time, after any sequence of \<^verbatim>\<open>saveRoute\<close>, \<^verbatim>\<open>saveTrailGuide\<close>, \<^verbatim>\<open>markRouteUploaded\<close>,
  \<^verbatim>\<open>markGuideUploaded\<close>, \<^verbatim>\<open>incrementRetryCount\<close> and \<^verbatim>\<open>syncAllPending\<close>, in any
  environments, when it was so before.
\<close>

theorem artifact_states_preserved: "store_ok s \<Longrightarrow> store_ok (perform_all ops s)"
  by (rule perform_all_preserves[OF respected_store_ok])

theorem artifact_states_preserved_witness:
  "store_ok online_start
   \<and> store_ok (perform_all [(field_env, SaveRoute ''Loop Trail'' None),
                            (field_env, SaveTrailGuide ''Ridge Guide'' None),
                            (field_env, SyncAllPending),
                            (field_env, IncrementRetryCount PendingRoutes 1),
                            (field_env, MarkGuideUploaded 1 ''doc2'')] online_start)"
proof -
  have ok: "store_ok online_start"
    by (simp add: store_ok_def routes_of_def guides_of_def online_start_def openDatabase_def
        empty_database_def)
  show ?thesis
    using ok by (rule conjI) (rule artifact_states_preserved[OF ok])
qed

text \<open>
  C5. A pass of \<^verbatim>\<open>syncAllPending\<close> that gets as far as the uploads (database open, online,
  no pass running, a user signed in) attempts every pending route and then every pending
  guide, in store order, whatever fails on the way; and each record whose upload throws
  is afterwards the same record with its retry count one higher (and \<^verbatim>\<open>lastRetryAt\<close> set),
  so still pending. The keys of each store are taken to be distinct, as they are in every
  well-keyed state (\<open>well_keyed_keys\<close>, \<open>well_keyed_reachable\<close>).
\<close>

theorem sync_failures_isolated:
  assumes "db s = Some d" "isOnline s" "\<not> syncInProgress s" "currentUser e = Some u"
    "distinct (map localId (pending_routes d))" "distinct (map localId (pending_guides d))"
  shows "remote_log (snd (syncAllPending e s)) =
           remote_log s @ map (route_call u) (filter is_pending (pending_routes d))
             @ map (guide_call u) (filter is_pending (pending_guides d))
    \<and> (\<forall>r \<in> set (pending_routes d). is_pending r \<and> isl (uploadRoute e r) \<longrightarrow>
          store_get localId (localId r) (routes_of (snd (syncAllPending e s))) =
            Some (r\<lparr>pending_item.retryCount := pending_item.retryCount r + 1,
                   lastRetryAt := Some (now e)\<rparr>))
    \<and> (\<forall>g \<in> set (pending_guides d). is_pending g \<and> isl (uploadGuide e g) \<longrightarrow>
          store_get localId (localId g) (guides_of (snd (syncAllPending e s))) =
            Some (g\<lparr>pending_item.retryCount := pending_item.retryCount g + 1,
                   lastRetryAt := Some (now e)\<rparr>))"
proof -
  let ?pr = "filter is_pending (pending_routes d)"
  let ?pg = "filter is_pending (pending_guides d)"
  let ?s' = "snd (syncAllPending e s)"
  have fin: "routes_of ?s' = map (\<lambda>y. if is_pending y then route_result e y else y) (pending_routes d)
     \<and> guides_of ?s' = map (\<lambda>y. if is_pending y then guide_result e y else y) (pending_guides d)
     \<and> remote_log ?s' = remote_log s @ map (route_call u) ?pr @ map (guide_call u) ?pg"
  proof (cases "?pr @ ?pg = []")
    case True
    then have e1: "?pr = []" and e2: "?pg = []" by simp_all
    have "sync_pass e u (s\<lparr>syncInProgress := True\<rparr>) =
            (Inr NothingPending, s\<lparr>syncInProgress := True\<rparr>\<lparr>syncInProgress := False\<rparr>)"
      using assms(1) e1 e2
      by (simp add: sync_pass_def getPendingRoutes_def getPendingGuides_def Let_def)
    moreover have "map (\<lambda>y. if is_pending y then route_result e y else y) (pending_routes d) = pending_routes d"
      using e1 by (auto simp: filter_empty_conv intro: map_idI)
    moreover have "map (\<lambda>y. if is_pending y then guide_result e y else y) (pending_guides d) = pending_guides d"
      using e2 by (auto simp: filter_empty_conv intro: map_idI)
    ultimately show ?thesis
      using assms(1-4) e1 e2 by (simp add: syncAllPending_def routes_of_def guides_of_def)
  next
    case False
    have d0: "db (s\<lparr>syncInProgress := True\<rparr>) = Some d" using assms(1) by simp
    obtain cnt s4 where
      run: "sync_pass e u (s\<lparr>syncInProgress := True\<rparr>) =
           (Inr (Synced (fst cnt) (snd cnt)), processEmailQueue e (show_results cnt s4))"
      and a: "routes_of s4 = map (\<lambda>y. if is_pending y then route_result e y else y) (pending_routes d)"
      and b: "guides_of s4 = map (\<lambda>y. if is_pending y then guide_result e y else y) (pending_guides d)"
      and c: "remote_log s4 = remote_log (s\<lparr>syncInProgress := True\<rparr>) @ map (route_call u) ?pr @ map (guide_call u) ?pg"
      using sync_pass_result[OF d0 assms(5,6) False, of e u] by auto
    have "same_artifacts s4 (processEmailQueue e (show_results cnt s4))"
      using show_results_same processEmailQueue_same same_artifacts_trans by blast
    then show ?thesis
      using assms(2-4) run a b c by (simp add: syncAllPending_def same_artifacts_def)
  qed
  have R: "store_get localId (localId r) (routes_of ?s') =
            Some (r\<lparr>pending_item.retryCount := pending_item.retryCount r + 1,
                   lastRetryAt := Some (now e)\<rparr>)"
    if "r \<in> set (pending_routes d)" "is_pending r" "isl (uploadRoute e r)" for r
  proof -
    have "store_get localId (localId r) (routes_of ?s') =
          Some (if is_pending r then route_result e r else r)"
      unfolding conjunct1[OF fin]
      by (rule store_get_map[OF assms(5) that(1)]) simp
    then show ?thesis using that(2,3)
      by (cases "uploadRoute e r") (simp_all add: route_result_def)
  qed
  have G: "store_get localId (localId g) (guides_of ?s') =
            Some (g\<lparr>pending_item.retryCount := pending_item.retryCount g + 1,
                   lastRetryAt := Some (now e)\<rparr>)"
    if "g \<in> set (pending_guides d)" "is_pending g" "isl (uploadGuide e g)" for g
  proof -
    have "store_get localId (localId g) (guides_of ?s') =
          Some (if is_pending g then guide_result e g else g)"
      unfolding conjunct1[OF conjunct2[OF fin]]
      by (rule store_get_map[OF assms(6) that(1)]) simp
    then show ?thesis using that(2,3)
      by (cases "uploadGuide e g") (simp_all add: guide_result_def)
  qed
  show ?thesis using fin R G by blast
qed

theorem sync_failures_isolated_witness:
  "isOnline two_saved \<and> \<not> syncInProgress two_saved
   \<and> map (\<lambda>g. (localId g, pending_item.status g, pending_item.retryCount g)) (guides_of two_saved)
        = [(1, Pending, 0)]
   \<and> remote_log (snd (syncAllPending field_env two_saved)) =
        [AddRoute ''Loop Trail'' ''u1'' ''Hiker'', AddGuide ''Ridge Guide'' ''u1'' ''Hiker'']
   \<and> map (\<lambda>g. (localId g, pending_item.status g, pending_item.retryCount g))
         (guides_of (snd (syncAllPending field_env two_saved))) = [(1, Pending, 1)]"
proof -
  let ?d = "the (db two_saved)"
  let ?g = "hd (pending_guides ?d)"
  have d: "db two_saved = Some ?d" by code_simp
  have on: "isOnline two_saved" by code_simp
  have idle: "\<not> syncInProgress two_saved" by code_simp
  have usr: "currentUser field_env = Some hiker" by (simp add: field_env_def)
  have dr: "distinct (map localId (pending_routes ?d))" by code_simp
  have dg: "distinct (map localId (pending_guides ?d))" by code_simp
  have g: "?g \<in> set (pending_guides ?d)" by code_simp
  have fails: "is_pending ?g \<and> isl (uploadGuide field_env ?g)" by code_simp
  have before: "map (\<lambda>g. (localId g, pending_item.status g, pending_item.retryCount g))
      (guides_of two_saved) = [(1, Pending, 0)]" by code_simp
  have calls: "map (route_call hiker) (filter is_pending (pending_routes ?d)) @
      map (guide_call hiker) (filter is_pending (pending_guides ?d)) =
      [AddRoute ''Loop Trail'' ''u1'' ''Hiker'', AddGuide ''Ridge Guide'' ''u1'' ''Hiker'']"
    by code_simp
  have empty: "remote_log two_saved = []" by code_simp
  have one: "map localId (guides_of (snd (syncAllPending field_env two_saved))) = [1]"
    by code_simp
  note main = sync_failures_isolated[OF d on idle usr dr dg]
  have log: "remote_log (snd (syncAllPending field_env two_saved)) =
      [AddRoute ''Loop Trail'' ''u1'' ''Hiker'', AddGuide ''Ridge Guide'' ''u1'' ''Hiker'']"
    using conjunct1[OF main] calls empty by simp
  have "store_get localId (localId ?g) (guides_of (snd (syncAllPending field_env two_saved))) =
      Some (?g\<lparr>pending_item.retryCount := pending_item.retryCount ?g + 1,
               lastRetryAt := Some (now field_env)\<rparr>)"
    using conjunct2[OF conjunct2[OF main]] g fails by blast
  moreover have "localId ?g = 1 \<and> pending_item.status ?g = Pending \<and> pending_item.retryCount ?g = 0"
    by code_simp
  ultimately have after: "map (\<lambda>g. (localId g, pending_item.status g, pending_item.retryCount g))
         (guides_of (snd (syncAllPending field_env two_saved))) = [(1, Pending, 1)]"
    using one
    by (cases "guides_of (snd (syncAllPending field_env two_saved))")
       (auto simp: store_get_def)
  show ?thesis
    using on idle before log after by simp
qed


text \<open>
  C6, as the spec has it: an entry that \<^verbatim>\<open>queueEmailBackup\<close> created is sent by the next
  drain and then has \<^verbatim>\<open>sent = true\<close>. It fails. The library is loaded, the object online,
  the relay configured and the relay would accept the entry; a backup of the route
  \<open>Loop Trail\<close> is queued and \<^verbatim>\<open>processEmailQueue\<close> runs. The read
  \<^verbatim>\<open>index.getAll(false)\<close> throws, the \<^verbatim>\<open>catch\<close> of the method swallows it, and the entry is
  as it was: unsent, no \<^verbatim>\<open>sentAt\<close>, no retry counted, and the relay was never called. It is
  so for every state and environment (\<open>processEmailQueue_inert\<close>).
\<close>

theorem queued_backup_is_not_sent:
  "(let s = loadEmailJS relay_env online_start;
        s1 = snd (queueEmailBackup relay_env ''route'' loop_trail s);
        s2 = processEmailQueue relay_env s1
    in emailJsLoaded s1 \<and> isOnline s1 \<and> configured (emailjsConfig relay_env)
     \<and> map (emailjsSend relay_env) (emails_of s1) = [Inr ()]
     \<and> map (\<lambda>item. (email_item.id' item, sent item)) (emails_of s1) = [(1, False)]
     \<and> map (\<lambda>item. (email_item.id' item, sent item, sentAt item, email_item.retryCount item))
          (emails_of s2) = [(1, False, None, 0)]
     \<and> relay_log s2 = [])"
  by code_simp

text \<open>The drain was not turned away at its first line: the library was loaded and the object
  online when it ran on the queued entry.\<close>

theorem queued_backup_is_not_sent_witness:
  "(let s1 = snd (queueEmailBackup relay_env ''route'' loop_trail
                    (loadEmailJS relay_env online_start))
    in emailJsLoaded s1 \<and> isOnline s1
     \<and> map (\<lambda>item. (email_item.id' item, sent item)) (emails_of s1) = [(1, False)]
     \<and> map (\<lambda>item. (email_item.id' item, sent item, sentAt item, email_item.retryCount item))
          (emails_of (processEmailQueue relay_env s1)) = [(1, False, None, 0)])"
  using queued_backup_is_not_sent unfolding Let_def by blast

text \<open>
  C9, as the claim has it: with the library loaded and the relay configuration empty, a
  drain marks every entry that is unsent with fewer than three retries as sent, with
  \<^verbatim>\<open>sentAt\<close> set. It fails. After a route and a guide were saved online with nobody
  signed in, the queue holds two such entries; the library is loaded, the object online,
  the relay unconfigured. \<^verbatim>\<open>processEmailQueue\<close> runs: the read \<^verbatim>\<open>index.getAll(false)\<close>
  throws before the loop, and both entries are still unsent, with no \<^verbatim>\<open>sentAt\<close>.
\<close>

theorem unconfigured_drain_marks_nothing:
  "(let s = loadEmailJS field_env two_saved;
        s1 = processEmailQueue field_env s
    in emailJsLoaded s \<and> isOnline s
     \<and> emailjsConfig field_env = \<lparr>serviceId = [], templateId = [], publicKey = []\<rparr>
     \<and> map (\<lambda>item. (email_item.id' item, sent item, email_item.retryCount item)) (emails_of s)
          = [(1, False, 0), (2, False, 0)]
     \<and> map (\<lambda>item. (email_item.id' item, sent item, sentAt item)) (emails_of s1)
          = [(1, False, None), (2, False, None)]
     \<and> relay_log s1 = [])"
  by code_simp

text \<open>Here too the drain ran with the library loaded and the object online.\<close>

theorem unconfigured_drain_marks_nothing_witness:
  "(let s = loadEmailJS field_env two_saved
    in emailJsLoaded s \<and> isOnline s
     \<and> map (\<lambda>item. (email_item.id' item, sent item, sentAt item))
          (emails_of (processEmailQueue field_env s)) = [(1, False, None), (2, False, None)])"
  using unconfigured_drain_marks_nothing unfolding Let_def by blast

text \<open>
  C2. A flat-queue item that has failed three times (\<^verbatim>\<open>status\<close> \<^verbatim>\<open>'failed'\<close>,
  \<^verbatim>\<open>retryCount\<close> 3) should be left alone by later drains. The loops of
  \<^verbatim>\<open>processPhotoQueue\<close> and \<^verbatim>\<open>processSurveyQueue\<close> pass over only \<^verbatim>\<open>'uploaded'\<close> and
  \<^verbatim>\<open>'submitted'\<close> items, so the code does otherwise: after three failed attempts the item is
  \<^verbatim>\<open>'failed'\<close> with count 3, and a fourth drain attempts the remote operation again; when it
  throws the count becomes 4, when it succeeds the item becomes \<^verbatim>\<open>'uploaded'\<close>.
\<close>

theorem failed_item_is_retried:
  "map (\<lambda>p. (photo_item.status p, photo_item.retryCount p)) (pendingPhotos three_failures)
     = [(Failed, 3)]
   \<and> length (remote_log three_failures) = 3
   \<and> length (remote_log (snd (processPhotoQueue field_env three_failures))) = 4
   \<and> map (\<lambda>p. (photo_item.status p, photo_item.retryCount p))
         (pendingPhotos (snd (processPhotoQueue field_env three_failures))) = [(Failed, 4)]
   \<and> map (\<lambda>p. (photo_item.status p, photo_item.retryCount p))
         (pendingPhotos (snd (processPhotoQueue cloud_env three_failures))) = [(Uploaded, 3)]
   \<and> map (\<lambda>q. (survey_item.status q, survey_item.retryCount q))
         (pendingSurveys three_failed_surveys) = [(Failed, 3)]
   \<and> length (remote_log three_failed_surveys) = 3
   \<and> length (remote_log (snd (processSurveyQueue field_env three_failed_surveys))) = 4
   \<and> map (\<lambda>q. (survey_item.status q, survey_item.retryCount q))
         (pendingSurveys (snd (processSurveyQueue field_env three_failed_surveys))) = [(Failed, 4)]
   \<and> map (\<lambda>q. (survey_item.status q, survey_item.retryCount q))
         (pendingSurveys (snd (processSurveyQueue cloud_env three_failed_surveys))) = [(Submitted, 3)]"
  by code_simp

text \<open>
  C7. The delayed prune should take away the uploaded (submitted) items and nothing else.
  The timer writes back the filtered copy of the array that the drain had read, so the
  code does otherwise: an item queued after the drain and before the timer fires is in
  the slot when the timer fires, pending, and is gone afterwards.
\<close>

theorem prune_drops_later_item:
  "map (\<lambda>p. (photo_item.id' p, photo_item.status p)) (pendingPhotos first_uploaded)
     = [(''photo_200_p7q2'', Uploaded)]
   \<and> map fst (timers second_queued) = [5000]
   \<and> map (\<lambda>p. (photo_item.id' p, photo_item.status p)) (pendingPhotos second_queued)
       = [(''photo_200_p7q2'', Uploaded), (''photo_100_k3x9'', Pending)]
   \<and> pendingPhotos (fireTimer field_env 0 second_queued) = []
   \<and> map (\<lambda>q. (survey_item.id' q, survey_item.status q)) (pendingSurveys second_survey_queued)
       = [(''survey_200_p7q2'', Submitted), (''survey_100_k3x9'', Pending)]
   \<and> pendingSurveys (fireTimer field_env 0 second_survey_queued) = []"
  by code_simp

text \<open>
  C8, as the spec has it: on a flip from offline to online the poll does what the
  \<^verbatim>\<open>online\<close> handler does, so that with something pending one sync is set for after the
  settle delay and none is made at once. It fails. A route and a guide are pending, the
  flag says offline and the platform online. The handler leaves the timer of 3000 ms and
  has made no remote write; the poll, in the same state, leaves no timer and has made
  both remote writes already: its \<^verbatim>\<open>await this.syncAllPending()\<close> is not wrapped in the
  \<^verbatim>\<open>setTimeout\<close> that the handler has. It is so whenever something is pending
  (\<open>pollConnectivity_syncs_at_once\<close>).
\<close>

theorem poll_differs_from_online_handler:
  "\<not> isOnline (onOffline two_saved) \<and> navigatorOnLine field_env
   \<and> getPendingCount (onOffline two_saved) = 2
   \<and> timers (pollConnectivity field_env (onOffline two_saved)) = []
   \<and> remote_log (pollConnectivity field_env (onOffline two_saved))
       = [AddRoute ''Loop Trail'' ''u1'' ''Hiker'', AddGuide ''Ridge Guide'' ''u1'' ''Hiker'']
   \<and> timers (onOnline field_env (onOffline two_saved)) = [(3000, AutoSync)]
   \<and> remote_log (onOnline field_env (onOffline two_saved)) = []
   \<and> pollConnectivity field_env (onOffline two_saved) \<noteq> onOnline field_env (onOffline two_saved)"
proof -
  have a: "\<not> isOnline (onOffline two_saved) \<and> navigatorOnLine field_env
   \<and> getPendingCount (onOffline two_saved) = 2
   \<and> timers (pollConnectivity field_env (onOffline two_saved)) = []
   \<and> remote_log (pollConnectivity field_env (onOffline two_saved))
       = [AddRoute ''Loop Trail'' ''u1'' ''Hiker'', AddGuide ''Ridge Guide'' ''u1'' ''Hiker'']
   \<and> timers (onOnline field_env (onOffline two_saved)) = [(3000, AutoSync)]
   \<and> remote_log (onOnline field_env (onOffline two_saved)) = []"
    by code_simp
  then have "timers (pollConnectivity field_env (onOffline two_saved)) \<noteq>
             timers (onOnline field_env (onOffline two_saved))"
    by simp
  then have "pollConnectivity field_env (onOffline two_saved) \<noteq> onOnline field_env (onOffline two_saved)"
    by auto
  with a show ?thesis by blast
qed

text \<open>
  C3, as the spec has it: of two invocations of \<^verbatim>\<open>syncAllPending\<close> that overlap, the
  second is a no-op and exactly one performs remote writes. The second half fails. A route
  and a guide are pending and the object is online, but nobody is signed in. The first
  invocation sets the flag and waits for the user; the second is invoked meanwhile and
  returns \<^verbatim>\<open>AlreadyInProgress\<close>; the first finds no user and returns. Neither has made a
  remote write, and nor does the method run alone.
\<close>

theorem no_pass_writes_when_signed_out:
  "(let e = field_env\<lparr>currentUser := None\<rparr>;
        c1 = interleave [(False, e)] (both_fresh two_saved);
        c = interleave [(True, e), (False, e)] c1
    in isOnline two_saved \<and> getPendingCount two_saved = 2 \<and> remote_log two_saved = []
     \<and> fst (invocation_of False c1) = AwaitAuth \<and> syncInProgress (fst c1)
     \<and> invocation_of True c = (Returned AlreadyInProgress, [])
     \<and> invocation_of False c = (Returned NoUser, [])
     \<and> remote_log (fst c) = []
     \<and> remote_log (snd (syncAllPending e two_saved)) = [])"
  by code_simp

text \<open>
  C3, amended. In every interleaving of two invocations, from any state: when one is
  invoked while the other is running, the flag is set, and the late one returns
  \<^verbatim>\<open>AlreadyInProgress\<close> at once, leaving the whole shared state (stores, log of remote
  calls, flag) and the other invocation as they were; it has made no remote write, then
  or later. However the schedule goes on, the remote calls on the object's log are the
  log of the start followed by the writes of the running pass. And if the pass runs in one
  environment and has returned, it has returned what \<open>syncAllPending\<close> alone returns from
  the start, the shared state is the state \<open>syncAllPending\<close> alone ends in, and, with the
  store open and a user signed in, its remote writes are one per pending route and then
  one per pending guide. So at most one pass writes, and it writes what a pass alone
  writes.
\<close>

theorem late_invocation_is_noop:
  assumes "c1 = interleave pre (both_fresh s0)"
    and "running (fst (invocation_of (\<not> who) c1))"
    and "fst (invocation_of who c1) = NotInvoked"
    and "c = interleave ((who, e2) # post) c1"
  shows "syncInProgress (fst c1)
       \<and> syncAllPending e2 (fst c1) = (AlreadyInProgress, fst c1)
       \<and> fst (interleave [(who, e2)] c1) = fst c1
       \<and> invocation_of (\<not> who) (interleave [(who, e2)] c1) = invocation_of (\<not> who) c1
       \<and> invocation_of who c = (Returned AlreadyInProgress, [])
       \<and> remote_log (fst c) = remote_log s0 @ snd (invocation_of (\<not> who) c)
       \<and> ((\<forall>x \<in> set (pre @ post). fst x \<noteq> who \<longrightarrow> snd x = e)
            \<and> \<not> running (fst (invocation_of (\<not> who) c)) \<longrightarrow>
              fst (invocation_of (\<not> who) c) = Returned (fst (syncAllPending e s0))
            \<and> fst c = snd (syncAllPending e s0)
            \<and> (\<forall>d u. db s0 = Some d \<and> currentUser e = Some u \<longrightarrow>
                  snd (invocation_of (\<not> who) c) =
                    map (route_call u) (filter is_pending (pending_routes d))
                    @ map (guide_call u) (filter is_pending (pending_guides d))))"
proof -
  let ?c2 = "interleave [(who, e2)] c1"
  have sole: "sole_holder c1"
    unfolding assms(1) by (rule interleave_sole) (simp add: both_fresh_def sole_holder_def running_def)
  have flag: "syncInProgress (fst c1)"
    using sole assms(2) by (cases c1; cases who) (auto simp: sole_holder_def invocation_of_def)
  have big: "syncAllPending e2 (fst c1) = (AlreadyInProgress, fst c1)"
    using flag by (simp add: syncAllPending_def)
  have nopre: "\<forall>x \<in> set pre. fst x \<noteq> who"
    by (rule fresh_had_no_turn) (use assms(1,3) in simp)
  have start: "remote_log (fst (both_fresh s0)) = remote_log s0 @ snd (invocation_of (\<not> who) (both_fresh s0))"
    by (simp add: both_fresh_def invocation_of_def)
  have at1: "invocation_of who c1 = invocation_of who (both_fresh s0)
      \<and> remote_log (fst c1) = remote_log s0 @ snd (invocation_of (\<not> who) c1)"
    unfolding assms(1) by (rule other_alone[OF disjI2[OF nopre] start])
  then have mine1: "invocation_of who c1 = (NotInvoked, [])"
    by (simp add: both_fresh_def invocation_of_def)
  have adv: "advance e2 (invocation_of who c1) (fst c1) = ((Returned AlreadyInProgress, []), fst c1)"
    using flag by (simp add: mine1 advance_def)
  have st2: "fst ?c2 = fst c1" by (simp add: turn(1) adv)
  have mine2: "invocation_of who ?c2 = (Returned AlreadyInProgress, [])" by (simp add: turn(2) adv)
  have other2: "invocation_of (\<not> who) ?c2 = invocation_of (\<not> who) c1" by (rule turn(3))
  have c: "c = interleave post ?c2"
    unfolding assms(4) by (rule interleave_Cons)
  have ret2: "\<exists>out. fst (invocation_of who ?c2) = Returned out" by (simp add: mine2)
  have log2: "remote_log (fst ?c2) = remote_log s0 @ snd (invocation_of (\<not> who) ?c2)"
    using at1 by (simp add: st2 other2)
  have fin: "invocation_of who c = invocation_of who ?c2
      \<and> remote_log (fst c) = remote_log s0 @ snd (invocation_of (\<not> who) c)"
    unfolding c by (rule other_alone[OF disjI1[OF ret2] log2])
  have mine: "invocation_of who c = (Returned AlreadyInProgress, [])"
    using fin mine2 by simp
  have alone: "fst (invocation_of (\<not> who) c) = Returned (fst (syncAllPending e s0))
            \<and> fst c = snd (syncAllPending e s0)
            \<and> (\<forall>d u. db s0 = Some d \<and> currentUser e = Some u \<longrightarrow>
                  snd (invocation_of (\<not> who) c) =
                    map (route_call u) (filter is_pending (pending_routes d))
                    @ map (guide_call u) (filter is_pending (pending_guides d)))"
    if envs: "\<forall>x \<in> set (pre @ post). fst x \<noteq> who \<longrightarrow> snd x = e"
      and over: "\<not> running (fst (invocation_of (\<not> who) c))"
  proof -
    have e_pre: "\<forall>x \<in> set pre. fst x \<noteq> who \<longrightarrow> snd x = e" using envs by simp
    have e_post: "\<forall>x \<in> set post. fst x \<noteq> who \<longrightarrow> snd x = e" using envs by simp
    have r0: "(fst (invocation_of (\<not> who) (both_fresh s0)), fst (both_fresh s0)) = run e 0 NotInvoked s0"
      by (simp add: both_fresh_def invocation_of_def)
    obtain m1 where m1: "(fst (invocation_of (\<not> who) c1), fst c1) = run e m1 NotInvoked s0"
      using other_alone_run[OF disjI2[OF nopre] e_pre r0] unfolding assms(1) by blast
    have began: "\<not> syncInProgress s0 \<and> isOnline s0"
      by (rule running_run[of e m1]) (use assms(2) m1[symmetric] in simp)
    have m2: "(fst (invocation_of (\<not> who) ?c2), fst ?c2) = run e m1 NotInvoked s0"
      using m1 by (simp add: st2 other2)
    obtain m where m: "(fst (invocation_of (\<not> who) c), fst c) = run e m NotInvoked s0"
      using other_alone_run[OF disjI1[OF ret2] e_post m2] unfolding c by blast
    have "fst (invocation_of (\<not> who) c1) \<noteq> NotInvoked"
      using assms(2) by (auto simp: running_def)
    then have "fst (invocation_of (\<not> who) c) \<noteq> NotInvoked"
      unfolding assms(4) by (rule never_fresh_again)
    with over obtain out where out: "fst (invocation_of (\<not> who) c) = Returned out"
      by (cases "fst (invocation_of (\<not> who) c)") (auto simp: running_def)
    have "run e m NotInvoked s0 = (Returned out, fst c)" using m out by simp
    then have meth: "syncAllPending e s0 = (out, fst c)" by (rule returned_run_is_method)
    have writes: "snd (invocation_of (\<not> who) c) =
                    map (route_call u) (filter is_pending (pending_routes d))
                    @ map (guide_call u) (filter is_pending (pending_guides d))"
      if "db s0 = Some d" "currentUser e = Some u" for d u
    proof -
      have "remote_log (fst c) =
          remote_log s0 @ map (route_call u) (filter is_pending (pending_routes d))
             @ map (guide_call u) (filter is_pending (pending_guides d))"
        using syncAllPending_log[OF that(1) conjunct2[OF began] conjunct1[OF began] that(2)] meth
        by simp
      with fin show ?thesis by simp
    qed
    show ?thesis using out meth writes by simp
  qed
  show ?thesis
    using flag big st2 other2 mine fin alone by blast
qed

text \<open>The first invocation has set the flag and read the user when the second is invoked;
  then the first runs to its end: two remote writes by the first, none by the second, and
  the state of a pass alone.\<close>

theorem late_invocation_is_noop_witness:
  "(let c1 = interleave [(False, field_env), (False, field_env)] (both_fresh two_saved);
        c = interleave ((True, field_env) # replicate 8 (False, field_env)) c1
    in fst (invocation_of False c1) = AwaitRoutes hiker \<and> fst (invocation_of True c1) = NotInvoked
     \<and> syncInProgress (fst c1)
     \<and> fst (interleave [(True, field_env)] c1) = fst c1
     \<and> invocation_of True c = (Returned AlreadyInProgress, [])
     \<and> invocation_of False c =
          (Returned (Synced 1 1),
           [AddRoute ''Loop Trail'' ''u1'' ''Hiker'', AddGuide ''Ridge Guide'' ''u1'' ''Hiker''])
     \<and> remote_log (fst c) =
          [AddRoute ''Loop Trail'' ''u1'' ''Hiker'', AddGuide ''Ridge Guide'' ''u1'' ''Hiker'']
     \<and> fst c = snd (syncAllPending field_env two_saved)
     \<and> map pending_item.status (routes_of (fst c)) = [Uploaded]
     \<and> map pending_item.retryCount (guides_of (fst c)) = [1])"
proof -
  let ?pre = "[(False, field_env), (False, field_env)]"
  let ?post = "replicate 8 (False, field_env)"
  let ?c1 = "interleave ?pre (both_fresh two_saved)"
  let ?c = "interleave ((True, field_env) # ?post) ?c1"
  have at: "fst (invocation_of False ?c1) = AwaitRoutes hiker" by code_simp
  then have r: "running (fst (invocation_of (\<not> True) ?c1))" by (simp add: running_def)
  have n: "fst (invocation_of True ?c1) = NotInvoked" by code_simp
  note main = late_invocation_is_noop[OF refl r n refl, of field_env ?post field_env]
  have envs: "\<forall>x \<in> set (?pre @ ?post). fst x \<noteq> True \<longrightarrow> snd x = field_env" by simp
  have fin: "invocation_of False ?c =
          (Returned (Synced 1 1),
           [AddRoute ''Loop Trail'' ''u1'' ''Hiker'', AddGuide ''Ridge Guide'' ''u1'' ''Hiker''])
     \<and> remote_log (fst ?c) =
          [AddRoute ''Loop Trail'' ''u1'' ''Hiker'', AddGuide ''Ridge Guide'' ''u1'' ''Hiker'']
     \<and> map pending_item.status (routes_of (fst ?c)) = [Uploaded]
     \<and> map pending_item.retryCount (guides_of (fst ?c)) = [1]" by code_simp
  then have over: "\<not> running (fst (invocation_of (\<not> True) ?c))" by (simp add: running_def)
  have same: "fst ?c = snd (syncAllPending field_env two_saved)"
    using main envs over by blast
  show ?thesis
    unfolding Let_def using main at n fin same by blast
qed

end
